theory Spec2Isabelle
  imports Main "HOL-Library.Sublist"
begin

section \<open>The abstract syntax (ast\_nodes.py)\<close>

text \<open>
  A Python \<open>str\<close> is a sequence of Unicode code points; identifiers of the language are
  mostly outside ASCII, so a string is a list of code points and not a list of bytes.
\<close>

type_synonym pystr = "nat list"

text \<open>
  The six frozen dataclasses. Python does not enforce the annotated slot types, so the
  premises and the conclusion of a \<open>Rule\<close> and the expression of a \<open>Query\<close> are nodes
  of any class; the interpreter tests the class at run time.
\<close>

datatype node =
    Proposition pystr bool
  | SVOClause pystr bool pystr bool pystr bool
  | ClassificationEdge (subtype: pystr) (subtype_is_var: bool) (supertype: pystr)
      (supertype_is_var: bool)
  | Rule "node list" node
  | Query node
  | VerbDeclaration pystr

text \<open>The class of a node, as \<open>type(node)\<close> and \<open>isinstance\<close> see it.\<close>

datatype node_class =
  PropositionT | SVOClauseT | ClassificationEdgeT | RuleT | QueryT | VerbDeclarationT

fun node_type :: "node \<Rightarrow> node_class" where
  "node_type (Proposition i v) = PropositionT"
| "node_type (SVOClause s sv vb vv ob ov) = SVOClauseT"
| "node_type (ClassificationEdge a av b bv) = ClassificationEdgeT"
| "node_type (Rule ps c) = RuleT"
| "node_type (Query e) = QueryT"
| "node_type (VerbDeclaration vb) = VerbDeclarationT"

text \<open>Exceptions are values; the message text of an exception is not modelled.\<close>

datatype error = TypeError | AttributeError | RuntimeError

section \<open>Substitutions and unification (interpreter.py)\<close>

text \<open>
  A substitution is a \<open>dict[str, str]\<close>: the association list of its items in insertion
  order. A key is only ever stored when it is absent, so new items go to the end.
\<close>

type_synonym subst = "(pystr \<times> pystr) list"

definition contains :: "subst \<Rightarrow> pystr \<Rightarrow> bool" where
  "contains s k = (map_of s k \<noteq> None)"

definition getitem :: "subst \<Rightarrow> pystr \<Rightarrow> pystr" where
  "getitem s k = the (map_of s k)"

fun apply_substitution :: "node \<Rightarrow> subst \<Rightarrow> error + node" where
  "apply_substitution (Proposition ident is_var) s =
     (if is_var \<and> contains s ident then Inr (Proposition (getitem s ident) False)
      else Inr (Proposition ident is_var))"
| "apply_substitution (SVOClause subj subj_is_var vb vb_is_var obj obj_is_var) s =
     Inr (SVOClause
       (if subj_is_var \<and> contains s subj then getitem s subj else subj)
       (subj_is_var \<and> \<not> contains s subj)
       (if vb_is_var \<and> contains s vb then getitem s vb else vb)
       (vb_is_var \<and> \<not> contains s vb)
       (if obj_is_var \<and> contains s obj then getitem s obj else obj)
       (obj_is_var \<and> \<not> contains s obj))"
| "apply_substitution (ClassificationEdge sub_name sub_is_var sup_name sup_is_var) s =
     Inr (ClassificationEdge
       (if sub_is_var \<and> contains s sub_name then getitem s sub_name else sub_name)
       (sub_is_var \<and> \<not> contains s sub_name)
       (if sup_is_var \<and> contains s sup_name then getitem s sup_name else sup_name)
       (sup_is_var \<and> \<not> contains s sup_name))"
| "apply_substitution (Rule ps c) s = Inl TypeError"
| "apply_substitution (Query e) s = Inl TypeError"
| "apply_substitution (VerbDeclaration vb) s = Inl TypeError"

text \<open>
  \<open>_unify_proposition\<close> reads the slots of two \<open>Proposition\<close> objects; \<open>None\<close> is the
  failure of the unification. Reading a slot that an object of another class does not
  have raises \<open>AttributeError\<close>.
\<close>

fun unify_proposition :: "node \<Rightarrow> node \<Rightarrow> subst \<Rightarrow> error + subst option" where
  "unify_proposition (Proposition p_ident p_is_var) (Proposition f_ident f_is_var) s =
     Inr (if p_is_var then
            (if contains s p_ident then
               (if getitem s p_ident = f_ident then Some s else None)
             else Some (s @ [(p_ident, f_ident)]))
          else if f_is_var then
            (if contains s f_ident then
               (if getitem s f_ident = p_ident then Some s else None)
             else Some (s @ [(f_ident, p_ident)]))
          else if p_ident = f_ident then Some s
          else None)"
| "unify_proposition pattern fct s = Inl AttributeError"

text \<open>
  The compound nodes unify slot by slot, each slot wrapped in a \<open>Proposition\<close>, and the
  substitution of one slot is handed to the next; a failure ends the chain.
\<close>

definition and_then ::
  "error + subst option \<Rightarrow> (subst \<Rightarrow> error + subst option) \<Rightarrow> error + subst option" where
  "and_then r k = (case r of Inl e \<Rightarrow> Inl e | Inr None \<Rightarrow> Inr None | Inr (Some s) \<Rightarrow> k s)"

fun unify_svo_clause :: "node \<Rightarrow> node \<Rightarrow> subst \<Rightarrow> error + subst option" where
  "unify_svo_clause (SVOClause ps psv pv pvv po pov) (SVOClause fs fsv fv fvv fo fov) s =
     and_then (unify_proposition (Proposition ps psv) (Proposition fs fsv) s) (\<lambda>s1.
     and_then (unify_proposition (Proposition pv pvv) (Proposition fv fvv) s1) (\<lambda>s2.
     unify_proposition (Proposition po pov) (Proposition fo fov) s2))"
| "unify_svo_clause pattern fct s = Inl AttributeError"

fun unify_classification_edge :: "node \<Rightarrow> node \<Rightarrow> subst \<Rightarrow> error + subst option" where
  "unify_classification_edge (ClassificationEdge pa pav pb pbv)
       (ClassificationEdge fa fav fb fbv) s =
     and_then (unify_proposition (Proposition pa pav) (Proposition fa fav) s) (\<lambda>s1.
     unify_proposition (Proposition pb pbv) (Proposition fb fbv) s1)"
| "unify_classification_edge pattern fct s = Inl AttributeError"

text \<open>
  \<open>unify\<close> applies the incoming substitution to both nodes, compares their classes and
  dispatches on the class of the pattern; its last branch raises.
\<close>

definition unify :: "node \<Rightarrow> node \<Rightarrow> subst \<Rightarrow> error + subst option" where
  "unify pattern fct s =
     (case apply_substitution pattern s of
        Inl e \<Rightarrow> Inl e
      | Inr pattern' \<Rightarrow>
          (case apply_substitution fct s of
             Inl e \<Rightarrow> Inl e
           | Inr fct' \<Rightarrow>
               if node_type pattern' \<noteq> node_type fct' then Inr None
               else if node_type pattern' = PropositionT then unify_proposition pattern' fct' s
               else if node_type pattern' = SVOClauseT then unify_svo_clause pattern' fct' s
               else if node_type pattern' = ClassificationEdgeT
                 then unify_classification_edge pattern' fct' s
               else Inl TypeError))"

text \<open>The three classes of node that are facts, patterns and conclusions.\<close>

definition is_fact :: "node \<Rightarrow> bool" where
  "is_fact n = (node_type n = PropositionT \<or> node_type n = SVOClauseT
     \<or> node_type n = ClassificationEdgeT)"

section \<open>The rule engine (interpreter.py)\<close>

text \<open>
  The evaluation context. Its sets are Python sets: finite, without an order that a
  program may rely on. A loop over a set that fills another set is the image of the set;
  such a loop raises when one of its rounds raises, whichever round comes first.
\<close>

record Context =
  facts :: "node set"
  classification_edges :: "node set"
  rules :: "node list"
  verb_lexicon :: "pystr set"

text \<open>The matches of one premise: every fact that unifies with it from the empty substitution.\<close>

definition matches_of :: "node \<Rightarrow> node set \<Rightarrow> (node \<times> subst) set" where
  "matches_of premise fs =
     (\<Union>fct\<in>fs. case unify premise fct [] of Inr (Some s) \<Rightarrow> {(fct, s)} | _ \<Rightarrow> {})"

text \<open>\<open>itertools.product\<close> of the lists of matches: one match for every premise, in order.\<close>

fun itertools_product :: "'a set list \<Rightarrow> 'a list set" where
  "itertools_product [] = {[]}"
| "itertools_product (A # As) = (\<Union>a\<in>A. (\<lambda>xs. a # xs) ` itertools_product As)"

text \<open>
  The two nested loops that merge the substitutions of one combination; \<open>None\<close> is the
  flag \<open>valid\<close> turned false.
\<close>

fun merge_items :: "subst \<Rightarrow> (pystr \<times> pystr) list \<Rightarrow> subst option" where
  "merge_items combined_subst [] = Some combined_subst"
| "merge_items combined_subst ((var, val) # items) =
     (if contains combined_subst var then
        (if getitem combined_subst var \<noteq> val then None
         else merge_items combined_subst items)
      else merge_items (combined_subst @ [(var, val)]) items)"

fun merge_combination :: "subst \<Rightarrow> (node \<times> subst) list \<Rightarrow> subst option" where
  "merge_combination combined_subst [] = Some combined_subst"
| "merge_combination combined_subst ((fct, s) # combination) =
     (case merge_items combined_subst s of
        None \<Rightarrow> None
      | Some combined_subst' \<Rightarrow> merge_combination combined_subst' combination)"

definition combine :: "(node \<times> subst) list \<Rightarrow> subst option" where
  "combine combination = merge_combination [] combination"

fun apply_rule :: "node \<Rightarrow> Context \<Rightarrow> error + node set" where
  "apply_rule (Rule premises conclusion) ctx =
     (if \<exists>premise\<in>set premises. \<exists>fct\<in>facts ctx. isl (unify premise fct []) then Inl TypeError
      else
        let premise_matches = map (\<lambda>premise. matches_of premise (facts ctx)) premises in
        if \<exists>matches\<in>set premise_matches. matches = {} then Inr {}
        else
          let combined =
            (\<Union>combination\<in>itertools_product premise_matches.
               case combine combination of None \<Rightarrow> {} | Some c \<Rightarrow> {c})
          in
          if \<exists>c\<in>combined. isl (apply_substitution conclusion c) then Inl TypeError
          else Inr (\<Union>c\<in>combined.
            case apply_substitution conclusion c of
              Inr derived_fact \<Rightarrow> if derived_fact \<notin> facts ctx then {derived_fact} else {}
            | Inl e \<Rightarrow> {}))"
| "apply_rule rule ctx = Inl AttributeError"

section \<open>The query evaluator (interpreter.py)\<close>

text \<open>The two answers: the code points of U+22A4 and of the question mark.\<close>

definition derivable_symbol :: pystr where
  "derivable_symbol = [8868]"

definition not_derivable_symbol :: pystr where
  "not_derivable_symbol = [63]"

fun query_expression :: "node \<Rightarrow> node" where
  "query_expression (Query e) = e"
| "query_expression n = n"

text \<open>
  The loop returns at the first fact that unifies and raises at the first fact on which
  \<open>unify\<close> raises. Where a set holds facts of both kinds the order of the visit decides;
  the model raises there, so it raises on every set on which some order raises.
\<close>

definition evaluate_query :: "node \<Rightarrow> Context \<Rightarrow> error + pystr" where
  "evaluate_query query ctx =
     (let expr = query_expression query in
      if \<exists>fct\<in>facts ctx. isl (unify expr fct []) then Inl TypeError
      else if \<exists>fct\<in>facts ctx. unify expr fct [] \<noteq> Inr None then Inr derivable_symbol
      else Inr not_derivable_symbol)"

section \<open>What the rule engine is to compute\<close>

text \<open>
  A match of a premise is a fact and the substitution that unifying the premise with the
  fact from the empty substitution gives; a combination holds one match for every
  premise; it is conflicting when two of its substitutions give one variable two values.
\<close>

definition is_match :: "node \<Rightarrow> node set \<Rightarrow> node \<times> subst \<Rightarrow> bool" where
  "is_match premise fs m = (fst m \<in> fs \<and> unify premise (fst m) [] = Inr (Some (snd m)))"

definition is_combination :: "node list \<Rightarrow> node set \<Rightarrow> (node \<times> subst) list \<Rightarrow> bool" where
  "is_combination premises fs combination =
     (length combination = length premises \<and>
      (\<forall>i<length premises. is_match (premises ! i) fs (combination ! i)))"

definition binds :: "(node \<times> subst) list \<Rightarrow> pystr \<Rightarrow> pystr \<Rightarrow> bool" where
  "binds combination var val = (\<exists>m\<in>set combination. map_of (snd m) var = Some val)"

definition conflicting :: "(node \<times> subst) list \<Rightarrow> bool" where
  "conflicting combination =
     (\<exists>var v w. v \<noteq> w \<and> binds combination var v \<and> binds combination var w)"

section \<open>Names and bindings\<close>

text \<open>The identifiers that stand in the slots of a node.\<close>

fun node_names :: "node \<Rightarrow> pystr set" where
  "node_names (Proposition i v) = {i}"
| "node_names (SVOClause s sv vb vv ob ov) = {s, vb, ob}"
| "node_names (ClassificationEdge a av b bv) = {a, b}"
| "node_names (Rule ps c) = (\<Union>p\<in>set ps. node_names p) \<union> node_names c"
| "node_names (Query e) = node_names e"
| "node_names (VerbDeclaration vb) = {vb}"

text \<open>
  The bindings met while a combination is merged: those of the substitution merged so
  far and those of the matches still to come.
\<close>

definition all_binds :: "subst \<Rightarrow> (node \<times> subst) list \<Rightarrow> pystr \<Rightarrow> pystr \<Rightarrow> bool" where
  "all_binds c combination k v = (map_of c k = Some v \<or> binds combination k v)"

text \<open>
  The facts that a rule is to derive from a fact set: none when a premise has no match,
  else the instances of the conclusion under the merged substitutions of the
  combinations, those left out that are facts already.
\<close>

definition derived_facts :: "node list \<Rightarrow> node \<Rightarrow> node set \<Rightarrow> node set" where
  "derived_facts premises conclusion fs =
     (if \<exists>p\<in>set premises. \<forall>m. \<not> is_match p fs m then {}
      else {d. d \<notin> fs \<and>
        (\<exists>combination c. is_combination premises fs combination \<and>
           combine combination = Some c \<and> apply_substitution conclusion c = Inr d)})"

section \<open>The closure of the classification edges (interpreter.py)\<close>

text \<open>
  One pass of the two nested loops over the closure: \<open>chained\<close> is the test on a pair
  of edges, \<open>transitive_edge\<close> the edge that the pair gives, \<open>new_edges\<close> the set the
  pass collects.
\<close>

definition chained :: "node \<Rightarrow> node \<Rightarrow> bool" where
  "chained edge1 edge2 =
     (\<not> supertype_is_var edge1 \<and> \<not> subtype_is_var edge2 \<and> supertype edge1 = subtype edge2)"

definition transitive_edge :: "node \<Rightarrow> node \<Rightarrow> node" where
  "transitive_edge edge1 edge2 =
     ClassificationEdge (subtype edge1) (subtype_is_var edge1)
       (supertype edge2) (supertype_is_var edge2)"

definition new_edges :: "node set \<Rightarrow> node set" where
  "new_edges closure =
     (\<Union>edge1\<in>closure. \<Union>edge2\<in>closure.
        if chained edge1 edge2 \<and> transitive_edge edge1 edge2 \<notin> closure
        then {transitive_edge edge1 edge2} else {})"

text \<open>
  The loop runs while a pass has added an edge. The slots of an edge are read from every
  member of the set, so a member of another class raises \<open>AttributeError\<close>.
\<close>

partial_function (option) closure_loop :: "node set \<Rightarrow> (error + node set) option" where
  "closure_loop closure =
     (if \<exists>edge\<in>closure. node_type edge \<noteq> ClassificationEdgeT then Some (Inl AttributeError)
      else if new_edges closure = {} then Some (Inr closure)
      else closure_loop (closure \<union> new_edges closure))"

definition compute_classification_closure :: "node set \<Rightarrow> (error + node set) option" where
  "compute_classification_closure edges = closure_loop edges"

section \<open>The fixpoint driver (interpreter.py)\<close>

text \<open>The loop over the rules of the context, which gathers what they derive.\<close>

fun apply_rules :: "node list \<Rightarrow> Context \<Rightarrow> node set \<Rightarrow> error + node set" where
  "apply_rules [] ctx new_facts = Inr new_facts"
| "apply_rules (rule # rest) ctx new_facts =
     (case apply_rule rule ctx of
        Inl e \<Rightarrow> Inl e
      | Inr derived \<Rightarrow> apply_rules rest ctx (new_facts \<union> derived))"

text \<open>
  The body of the loop up to its test: the context with its edges closed, and the new
  facts of the round.
\<close>

definition close_edges :: "Context \<Rightarrow> node set \<Rightarrow> Context" where
  "close_edges ctx closed_edges =
     ctx\<lparr>facts := {f \<in> facts ctx. node_type f \<noteq> ClassificationEdgeT} \<union> closed_edges,
         classification_edges := closed_edges\<rparr>"

definition fixpoint_round :: "Context \<Rightarrow> (error + Context \<times> node set) option" where
  "fixpoint_round ctx =
     (case compute_classification_closure (classification_edges ctx) of
        None \<Rightarrow> None
      | Some (Inl e) \<Rightarrow> Some (Inl e)
      | Some (Inr closed_edges) \<Rightarrow>
          (case apply_rules (rules ctx) (close_edges ctx closed_edges) {} of
             Inl e \<Rightarrow> Some (Inl e)
           | Inr new_facts \<Rightarrow> Some (Inr (close_edges ctx closed_edges, new_facts))))"

definition add_new_facts :: "Context \<Rightarrow> node set \<Rightarrow> Context" where
  "add_new_facts ctx new_facts =
     ctx\<lparr>facts := facts ctx \<union> new_facts,
         classification_edges := classification_edges ctx \<union>
           {f \<in> new_facts. node_type f = ClassificationEdgeT}\<rparr>"

partial_function (option) fixpoint :: "Context \<Rightarrow> (error + Context) option" where
  "fixpoint ctx =
     (case fixpoint_round ctx of
        None \<Rightarrow> None
      | Some (Inl e) \<Rightarrow> Some (Inl e)
      | Some (Inr (ctx1, new_facts)) \<Rightarrow>
          if new_facts = {} then Some (Inr ctx1)
          else fixpoint (add_new_facts ctx1 new_facts))"

text \<open>The contexts with which the loop of \<open>fixpoint\<close> starts a round.\<close>

inductive loop_head :: "Context \<Rightarrow> Context \<Rightarrow> bool" for ctx0 where
  first_round: "loop_head ctx0 ctx0"
| next_round: "loop_head ctx0 ctx \<Longrightarrow> fixpoint_round ctx = Some (Inr (ctx1, new_facts)) \<Longrightarrow>
     new_facts \<noteq> {} \<Longrightarrow> loop_head ctx0 (add_new_facts ctx1 new_facts)"

section \<open>The evaluation of a program (interpreter.py)\<close>

text \<open>
  \<open>eval_program\<close> sorts the statements, builds the context, runs the fixpoint and prints
  one answer for every query. Its result is the lines printed and the exception that
  ended it, if any: every exception is raised again as a \<open>RuntimeError\<close>.
\<close>

definition initial_context :: "node list \<Rightarrow> Context" where
  "initial_context ast =
     (let assertions = filter (\<lambda>n. node_type n \<noteq> VerbDeclarationT \<and> node_type n \<noteq> QueryT
            \<and> node_type n \<noteq> RuleT) ast;
          fs = set assertions
      in \<lparr>facts = fs,
          classification_edges = {f \<in> fs. node_type f = ClassificationEdgeT},
          rules = filter (\<lambda>n. node_type n = RuleT) ast,
          verb_lexicon = (\<Union>n\<in>set ast. case n of VerbDeclaration vb \<Rightarrow> {vb} | _ \<Rightarrow> {})\<rparr>)"

fun print_results :: "node list \<Rightarrow> Context \<Rightarrow> pystr list \<Rightarrow> pystr list \<times> error option" where
  "print_results [] ctx printed = (printed, None)"
| "print_results (query # queries) ctx printed =
     (case evaluate_query query ctx of
        Inl e \<Rightarrow> (printed, Some RuntimeError)
      | Inr result \<Rightarrow> print_results queries ctx (printed @ [result]))"

definition eval_program :: "node list \<Rightarrow> (pystr list \<times> error option) option" where
  "eval_program ast =
     (case fixpoint (initial_context ast) of
        None \<Rightarrow> None
      | Some (Inl e) \<Rightarrow> Some ([], Some RuntimeError)
      | Some (Inr final_context) \<Rightarrow>
          Some (print_results (filter (\<lambda>n. node_type n = QueryT) ast) final_context []))"

section \<open>What closure and fixpoint are to compute\<close>

text \<open>
  A set of edges is closed when with \<open>A \<sqsubseteq> B\<close> and \<open>B \<sqsubseteq> C\<close>, the name \<open>B\<close>
  concrete on both sides, it holds \<open>A \<sqsubseteq> C\<close> with the flags of \<open>A\<close> and of \<open>C\<close>.
\<close>

definition transitively_closed :: "node set \<Rightarrow> bool" where
  "transitively_closed S =
     (\<forall>a av b c cv. ClassificationEdge a av b False \<in> S \<and> ClassificationEdge b False c cv \<in> S
        \<longrightarrow> ClassificationEdge a av c cv \<in> S)"

text \<open>
  A parsed program is a list of nodes whose slots hold what the parser puts there: the
  premises and the conclusion of a rule and the expression of a query are propositions,
  SVO clauses or classification edges.
\<close>

fun well_formed :: "node \<Rightarrow> bool" where
  "well_formed (Rule ps c) = ((\<forall>p\<in>set ps. is_fact p) \<and> is_fact c)"
| "well_formed (Query e) = is_fact e"
| "well_formed n = True"

definition context_names :: "Context \<Rightarrow> pystr set" where
  "context_names ctx = (\<Union>f\<in>facts ctx. node_names f) \<union> (\<Union>r\<in>set (rules ctx). node_names r)"

section \<open>Auxiliary notions for the closure\<close>

text \<open>
  Every edge that the closure of a set can hold pairs the subtype slots of one member
  with the supertype slots of another.
\<close>

definition edge_universe :: "node set \<Rightarrow> node set" where
  "edge_universe S =
     (\<lambda>(e1, e2). transitive_edge e1 e2) ` (S \<times> S)"

definition all_edges :: "node set \<Rightarrow> bool" where
  "all_edges S = (\<forall>e\<in>S. node_type e = ClassificationEdgeT)"

section \<open>Auxiliary notions for the fixpoint\<close>

text \<open>
  The facts over a set of names, and what holds of the context whenever the loop of
  \<open>fixpoint\<close> starts a round on a parsed program.
\<close>

definition fact_universe :: "pystr set \<Rightarrow> node set" where
  "fact_universe N = {n. is_fact n \<and> node_names n \<subseteq> N}"

definition round_invariant :: "pystr set \<Rightarrow> Context \<Rightarrow> bool" where
  "round_invariant N ctx =
     (finite N \<and> facts ctx \<subseteq> fact_universe N \<and>
      classification_edges ctx = {f \<in> facts ctx. node_type f = ClassificationEdgeT} \<and>
      (\<forall>r\<in>set (rules ctx). node_type r = RuleT \<and> well_formed r \<and> node_names r \<subseteq> N))"

section \<open>Tokens and the state of the parser (lexer.py, parser.py)\<close>

datatype TokenType = INDENT | NEWLINE | KEYWORD | VARIABLE | IDENTIFIER | EOF

record Token =
  token_type :: TokenType
  token_value :: pystr
  line :: nat
  column :: nat

text \<open>
  The particles of the language, each one character: the code points of U+66F0 (opens a
  proposition), U+554F and U+4E4E (around a query), U+82E5, U+5247 and U+4E14 (rule,
  conclusion, further premise), U+8005 and U+4E5F (around the supertype of an edge),
  U+4EE5, U+70BA and U+52D5 (verb declaration), and U+5176, the marker of a variable.
\<close>

definition kw_yue :: pystr where "kw_yue = [26352]"
definition kw_wen :: pystr where "kw_wen = [21839]"
definition kw_hu :: pystr where "kw_hu = [20046]"
definition kw_ruo :: pystr where "kw_ruo = [33509]"
definition kw_ze :: pystr where "kw_ze = [21063]"
definition kw_qie :: pystr where "kw_qie = [19988]"
definition kw_zhe :: pystr where "kw_zhe = [32773]"
definition kw_ye :: pystr where "kw_ye = [20063]"
definition kw_yi :: pystr where "kw_yi = [20197]"
definition kw_wei :: pystr where "kw_wei = [28858]"
definition kw_dong :: pystr where "kw_dong = [21205]"
definition variable_marker :: pystr where "variable_marker = [20854]"

text \<open>
  The failures of the parser, one for every message of a \<open>ParseError\<close>; reading the
  last token of an empty token list raises \<open>IndexError\<close>.
\<close>

datatype parse_failure =
    UnexpectedToken
  | ExpectedVerbIdentifier
  | ExpectedPropositionIdentifier
  | MultipleVerbs
  | UndeclaredVerb
  | MissingSubject
  | MissingObject
  | ExpectedSupertype
  | ExpectedExpression
  | UnexpectedKeyword

datatype parse_error = ParseError parse_failure | IndexError

text \<open>
  The parser: its tokens, its position, and its verb lexicon. The lexicon is a Python
  set; the list holds its members, each once, in the order in which a loop over the set
  visits them. No result below depends on that order.
\<close>

record Parser =
  tokens :: "Token list"
  position :: nat
  lexicon :: "pystr list"

definition peek :: "Parser \<Rightarrow> nat \<Rightarrow> parse_error + Token" where
  "peek p offset =
     (let pos = position p + offset in
      if pos < length (tokens p) then Inr (tokens p ! pos)
      else if tokens p = [] then Inl IndexError
      else Inr (last (tokens p)))"

definition advance :: "Parser \<Rightarrow> parse_error + Token \<times> Parser" where
  "advance p =
     (case peek p 0 of
        Inl e \<Rightarrow> Inl e
      | Inr token \<Rightarrow>
          Inr (token, if token_type token \<noteq> EOF then p\<lparr>position := position p + 1\<rparr> else p))"

definition expect :: "Parser \<Rightarrow> TokenType \<Rightarrow> pystr option \<Rightarrow> parse_error + Token \<times> Parser" where
  "expect p ttype expected =
     (case peek p 0 of
        Inl e \<Rightarrow> Inl e
      | Inr token \<Rightarrow>
          if token_type token \<noteq> ttype then Inl (ParseError UnexpectedToken)
          else if expected \<noteq> None \<and> token_value token \<noteq> the expected
            then Inl (ParseError UnexpectedToken)
          else advance p)"

definition lexicon_add :: "pystr list \<Rightarrow> pystr \<Rightarrow> pystr list" where
  "lexicon_add vs vb = (if vb \<in> set vs then vs else vs @ [vb])"

section \<open>Statements with a leading particle (parser.py)\<close>

definition parse_verb_declaration :: "Parser \<Rightarrow> parse_error + node \<times> Parser" where
  "parse_verb_declaration p =
     (case expect p KEYWORD (Some kw_yi) of
        Inl e \<Rightarrow> Inl e
      | Inr (t0, p1) \<Rightarrow>
     (case peek p1 0 of
        Inl e \<Rightarrow> Inl e
      | Inr verb_token \<Rightarrow>
          if token_type verb_token \<noteq> IDENTIFIER \<and> token_type verb_token \<noteq> VARIABLE
          then Inl (ParseError ExpectedVerbIdentifier)
          else
     (case advance p1 of
        Inl e \<Rightarrow> Inl e
      | Inr (vt, p2) \<Rightarrow>
     (case expect p2 KEYWORD (Some kw_wei) of
        Inl e \<Rightarrow> Inl e
      | Inr (t1, p3) \<Rightarrow>
     (case expect p3 KEYWORD (Some kw_dong) of
        Inl e \<Rightarrow> Inl e
      | Inr (t2, p4) \<Rightarrow>
          Inr (VerbDeclaration (token_value vt),
               p4\<lparr>lexicon := lexicon_add (lexicon p4) (token_value vt)\<rparr>))))))"

definition parse_proposition :: "Parser \<Rightarrow> parse_error + node \<times> Parser" where
  "parse_proposition p =
     (case expect p KEYWORD (Some kw_yue) of
        Inl e \<Rightarrow> Inl e
      | Inr (t0, p1) \<Rightarrow>
     (case peek p1 0 of
        Inl e \<Rightarrow> Inl e
      | Inr token \<Rightarrow>
          if token_type token = VARIABLE then
            (case advance p1 of
               Inl e \<Rightarrow> Inl e
             | Inr (t, p2) \<Rightarrow> Inr (Proposition (token_value t) True, p2))
          else if token_type token = IDENTIFIER then
            (case advance p1 of
               Inl e \<Rightarrow> Inl e
             | Inr (t, p2) \<Rightarrow> Inr (Proposition (token_value t) False, p2))
          else Inl (ParseError ExpectedPropositionIdentifier)))"

section \<open>The segmentation of an SVO clause (parser.py)\<close>

text \<open>
  \<open>str.find\<close>: the least index at which the text holds \<open>sub\<close>, or \<open>-1\<close>; and the test
  \<open>sub in text\<close> on strings.
\<close>

fun str_find :: "pystr \<Rightarrow> pystr \<Rightarrow> int" where
  "str_find [] sub = (if sub = [] then 0 else - 1)"
| "str_find (c # cs) sub =
     (if prefix sub (c # cs) then 0
      else (let r = str_find cs sub in if r = - 1 then - 1 else r + 1))"

definition str_contains :: "pystr \<Rightarrow> pystr \<Rightarrow> bool" where
  "str_contains text sub = (str_find text sub \<noteq> - 1)"

text \<open>
  The loop that gathers the identifier and variable tokens of the clause up to a line
  break, the end of the input or a keyword; other tokens are skipped.
\<close>

partial_function (option) collect_identifiers ::
  "Parser \<Rightarrow> Token list \<Rightarrow> (parse_error + Token list \<times> Parser) option" where
  "collect_identifiers p identifiers =
     (case peek p 0 of
        Inl e \<Rightarrow> Some (Inl e)
      | Inr token \<Rightarrow>
          if token_type token = NEWLINE \<or> token_type token = EOF \<or> token_type token = KEYWORD
          then Some (Inr (identifiers, p))
          else
            (case advance p of
               Inl e \<Rightarrow> Some (Inl e)
             | Inr (t, p') \<Rightarrow>
                 if token_type token = IDENTIFIER \<or> token_type token = VARIABLE
                 then collect_identifiers p' (identifiers @ [t])
                 else collect_identifiers p' identifiers))"

text \<open>
  The loop over the lexicon on a single token: it keeps the one verb found in the text
  with the index of its first occurrence, and raises at a second verb.
\<close>

fun find_verb ::
  "pystr \<Rightarrow> pystr list \<Rightarrow> (pystr \<times> int) option \<Rightarrow> parse_error + (pystr \<times> int) option" where
  "find_verb text [] found = Inr found"
| "find_verb text (vb # verbs) found =
     (let pos = str_find text vb in
      if pos \<noteq> - 1 then
        (if found \<noteq> None then Inl (ParseError MultipleVerbs)
         else find_verb text verbs (Some (vb, pos)))
      else find_verb text verbs found)"

definition split_single_token :: "pystr \<Rightarrow> pystr list \<Rightarrow> parse_error + node" where
  "split_single_token text verbs =
     (case find_verb text verbs None of
        Inl e \<Rightarrow> Inl e
      | Inr None \<Rightarrow> Inl (ParseError UndeclaredVerb)
      | Inr (Some (verb_found, verb_pos)) \<Rightarrow>
          if verb_pos = 0 then Inl (ParseError MissingSubject)
          else if verb_pos + int (length verb_found) \<ge> int (length text)
            then Inl (ParseError MissingObject)
          else
            (let subj = take (nat verb_pos) text;
                 object_val = drop (nat (verb_pos + int (length verb_found))) text
             in Inr (SVOClause subj (prefix variable_marker subj) verb_found False
                  object_val (prefix variable_marker object_val))))"

definition split_tokens :: "Token list \<Rightarrow> pystr list \<Rightarrow> parse_error + node" where
  "split_tokens identifiers verbs =
     (let verb_positions =
        filter (\<lambda>i. token_value (identifiers ! i) \<in> set verbs) [0..<length identifiers]
      in
      if length verb_positions = 0 then Inl (ParseError UndeclaredVerb)
      else if length verb_positions > 1 then Inl (ParseError MultipleVerbs)
      else
        (let verb_pos = hd verb_positions in
         if verb_pos = 0 then Inl (ParseError MissingSubject)
         else if verb_pos = length identifiers - 1 then Inl (ParseError MissingObject)
         else
           (let subject_tokens = take verb_pos identifiers;
                verb_token = identifiers ! verb_pos;
                object_tokens = drop (verb_pos + 1) identifiers
            in Inr (SVOClause
                 (concat (map token_value subject_tokens))
                 (\<exists>t\<in>set subject_tokens. token_type t = VARIABLE)
                 (token_value verb_token)
                 (token_type verb_token = VARIABLE)
                 (concat (map token_value object_tokens))
                 (\<exists>t\<in>set object_tokens. token_type t = VARIABLE)))))"

definition parse_svo_clause :: "Parser \<Rightarrow> Token \<Rightarrow> (parse_error + node \<times> Parser) option" where
  "parse_svo_clause p first_token =
     (case collect_identifiers p [first_token] of
        None \<Rightarrow> None
      | Some (Inl e) \<Rightarrow> Some (Inl e)
      | Some (Inr (identifiers, p')) \<Rightarrow>
          if length identifiers = 1 then
            (case split_single_token (token_value (identifiers ! 0)) (lexicon p') of
               Inl e \<Rightarrow> Some (Inl e)
             | Inr clause \<Rightarrow> Some (Inr (clause, p')))
          else
            (case split_tokens identifiers (lexicon p') of
               Inl e \<Rightarrow> Some (Inl e)
             | Inr clause \<Rightarrow> Some (Inr (clause, p'))))"

section \<open>Classification edges, expressions, rules, queries, statements (parser.py)\<close>

partial_function (option) collect_supertype ::
  "Parser \<Rightarrow> pystr list \<Rightarrow> bool \<Rightarrow> (parse_error + (pystr list \<times> bool) \<times> Parser) option" where
  "collect_supertype p supertype_parts super_is_var =
     (case peek p 0 of
        Inl e \<Rightarrow> Some (Inl e)
      | Inr token \<Rightarrow>
          if token_type token = KEYWORD \<and> token_value token = kw_ye
          then Some (Inr ((supertype_parts, super_is_var), p))
          else if token_type token = IDENTIFIER \<or> token_type token = VARIABLE
                  \<or> token_type token = KEYWORD then
            (case advance p of
               Inl e \<Rightarrow> Some (Inl e)
             | Inr (t, p') \<Rightarrow>
                 collect_supertype p' (supertype_parts @ [token_value t])
                   (super_is_var \<or> token_type token = VARIABLE))
          else Some (Inr ((supertype_parts, super_is_var), p)))"

definition parse_classification_edge ::
  "Parser \<Rightarrow> Token \<Rightarrow> (parse_error + node \<times> Parser) option" where
  "parse_classification_edge p first_token =
     (case expect p KEYWORD (Some kw_zhe) of
        Inl e \<Rightarrow> Some (Inl e)
      | Inr (t0, p1) \<Rightarrow>
     (case collect_supertype p1 [] False of
        None \<Rightarrow> None
      | Some (Inl e) \<Rightarrow> Some (Inl e)
      | Some (Inr ((supertype_parts, super_is_var), p2)) \<Rightarrow>
          if supertype_parts = [] then
            (case peek p2 0 of
               Inl e \<Rightarrow> Some (Inl e)
             | Inr token \<Rightarrow> Some (Inl (ParseError ExpectedSupertype)))
          else
            (case expect p2 KEYWORD (Some kw_ye) of
               Inl e \<Rightarrow> Some (Inl e)
             | Inr (t1, p3) \<Rightarrow>
                 Some (Inr (ClassificationEdge (token_value first_token)
                   (token_type first_token = VARIABLE)
                   (concat supertype_parts) super_is_var, p3)))))"

definition parse_expression :: "Parser \<Rightarrow> (parse_error + node \<times> Parser) option" where
  "parse_expression p =
     (case peek p 0 of
        Inl e \<Rightarrow> Some (Inl e)
      | Inr token \<Rightarrow>
          if token_type token = KEYWORD \<and> token_value token = kw_yue
          then Some (parse_proposition p)
          else if token_type token \<noteq> IDENTIFIER \<and> token_type token \<noteq> VARIABLE
          then Some (Inl (ParseError ExpectedExpression))
          else
     (case advance p of
        Inl e \<Rightarrow> Some (Inl e)
      | Inr (first_token, p1) \<Rightarrow>
     (case peek p1 0 of
        Inl e \<Rightarrow> Some (Inl e)
      | Inr next_token \<Rightarrow>
          if token_type next_token = KEYWORD \<and> token_value next_token = kw_zhe
          then parse_classification_edge p1 first_token
          else
            (let contains_verb =
               (\<exists>vb\<in>set (lexicon p1). str_contains (token_value first_token) vb)
             in
             if \<not> contains_verb \<and>
                (token_type next_token = NEWLINE \<or> token_type next_token = EOF)
             then Some (Inr (Proposition (token_value first_token)
                    (token_type first_token = VARIABLE), p1))
             else if \<not> contains_verb \<and> token_type next_token = KEYWORD \<and>
                (token_value next_token = kw_hu \<or> token_value next_token = kw_ze
                 \<or> token_value next_token = kw_qie)
             then Some (Inr (Proposition (token_value first_token)
                    (token_type first_token = VARIABLE), p1))
             else parse_svo_clause p1 first_token))))"

partial_function (option) more_premises ::
  "Parser \<Rightarrow> node list \<Rightarrow> (parse_error + node list \<times> Parser) option" where
  "more_premises p premises =
     (case peek p 0 of
        Inl e \<Rightarrow> Some (Inl e)
      | Inr token \<Rightarrow>
          if token_type token = KEYWORD \<and> token_value token = kw_qie then
            (case advance p of
               Inl e \<Rightarrow> Some (Inl e)
             | Inr (t, p1) \<Rightarrow>
                 (case parse_expression p1 of
                    None \<Rightarrow> None
                  | Some (Inl e) \<Rightarrow> Some (Inl e)
                  | Some (Inr (premise, p2)) \<Rightarrow> more_premises p2 (premises @ [premise])))
          else Some (Inr (premises, p)))"

definition parse_rule :: "Parser \<Rightarrow> (parse_error + node \<times> Parser) option" where
  "parse_rule p =
     (case expect p KEYWORD (Some kw_ruo) of
        Inl e \<Rightarrow> Some (Inl e)
      | Inr (t0, p1) \<Rightarrow>
     (case parse_expression p1 of
        None \<Rightarrow> None
      | Some (Inl e) \<Rightarrow> Some (Inl e)
      | Some (Inr (premise, p2)) \<Rightarrow>
     (case more_premises p2 [premise] of
        None \<Rightarrow> None
      | Some (Inl e) \<Rightarrow> Some (Inl e)
      | Some (Inr (premises, p3)) \<Rightarrow>
     (case expect p3 KEYWORD (Some kw_ze) of
        Inl e \<Rightarrow> Some (Inl e)
      | Inr (t1, p4) \<Rightarrow>
     (case parse_expression p4 of
        None \<Rightarrow> None
      | Some (Inl e) \<Rightarrow> Some (Inl e)
      | Some (Inr (conclusion, p5)) \<Rightarrow> Some (Inr (Rule premises conclusion, p5)))))))"

definition parse_query :: "Parser \<Rightarrow> (parse_error + node \<times> Parser) option" where
  "parse_query p =
     (case expect p KEYWORD (Some kw_wen) of
        Inl e \<Rightarrow> Some (Inl e)
      | Inr (t0, p1) \<Rightarrow>
     (case parse_expression p1 of
        None \<Rightarrow> None
      | Some (Inl e) \<Rightarrow> Some (Inl e)
      | Some (Inr (expr, p2)) \<Rightarrow>
     (case expect p2 KEYWORD (Some kw_hu) of
        Inl e \<Rightarrow> Some (Inl e)
      | Inr (t1, p3) \<Rightarrow> Some (Inr (Query expr, p3)))))"

text \<open>The loop of \<open>parse_statement\<close> that skips indentation and line breaks.\<close>

partial_function (option) skip_blank :: "Parser \<Rightarrow> (parse_error + Parser) option" where
  "skip_blank p =
     (case peek p 0 of
        Inl e \<Rightarrow> Some (Inl e)
      | Inr token \<Rightarrow>
          if token_type token = INDENT \<or> token_type token = NEWLINE then
            (case advance p of
               Inl e \<Rightarrow> Some (Inl e)
             | Inr (t, p') \<Rightarrow> skip_blank p')
          else Some (Inr p))"

text \<open>
  A statement, or \<open>None\<close> at the end of the input. A statement that starts with an
  identifier or a variable is a classification edge when the next token is the particle
  of the supertype, and goes to the segmentation of an SVO clause otherwise.
\<close>

definition with_statement ::
  "(parse_error + node \<times> Parser) option \<Rightarrow> (parse_error + node option \<times> Parser) option" where
  "with_statement r =
     (case r of
        None \<Rightarrow> None
      | Some (Inl e) \<Rightarrow> Some (Inl e)
      | Some (Inr (n, p)) \<Rightarrow> Some (Inr (Some n, p)))"

definition parse_statement :: "Parser \<Rightarrow> (parse_error + node option \<times> Parser) option" where
  "parse_statement p0 =
     (case skip_blank p0 of
        None \<Rightarrow> None
      | Some (Inl e) \<Rightarrow> Some (Inl e)
      | Some (Inr p) \<Rightarrow>
     (case peek p 0 of
        Inl e \<Rightarrow> Some (Inl e)
      | Inr token \<Rightarrow>
          if token_type token = EOF then Some (Inr (None, p))
          else if token_type token = KEYWORD then
            (if token_value token = kw_yi then with_statement (Some (parse_verb_declaration p))
             else if token_value token = kw_yue then with_statement (Some (parse_proposition p))
             else if token_value token = kw_ruo then with_statement (parse_rule p)
             else if token_value token = kw_wen then with_statement (parse_query p)
             else Some (Inl (ParseError UnexpectedKeyword)))
          else if token_type token = IDENTIFIER \<or> token_type token = VARIABLE then
            (case advance p of
               Inl e \<Rightarrow> Some (Inl e)
             | Inr (first_token, p1) \<Rightarrow>
            (case peek p1 0 of
               Inl e \<Rightarrow> Some (Inl e)
             | Inr next_token \<Rightarrow>
                 if token_type next_token = KEYWORD \<and> token_value next_token = kw_zhe
                 then with_statement (parse_classification_edge p1 first_token)
                 else with_statement (parse_svo_clause p1 first_token)))
          else Some (Inl (ParseError UnexpectedToken))))"

section \<open>Properties of unification and of the merge\<close>

lemma apply_substitution_type:
  "apply_substitution n s = Inr n' \<Longrightarrow> node_type n' = node_type n"
  by (cases n) (auto split: if_splits)

lemma apply_substitution_fact:
  "is_fact n \<Longrightarrow> \<exists>n'. apply_substitution n s = Inr n'"
  by (cases n) (auto simp: is_fact_def)

lemma apply_substitution_not_fact:
  "\<not> is_fact n \<Longrightarrow> apply_substitution n s = Inl TypeError"
  by (cases n) (auto simp: is_fact_def)

lemma contains_empty [simp]: "\<not> contains [] k"
  by (simp add: contains_def)

lemma apply_substitution_empty: "is_fact n \<Longrightarrow> apply_substitution n [] = Inr n"
  by (cases n) (auto simp: is_fact_def)

lemma is_fact_cases:
  assumes "is_fact n"
  obtains (Proposition) i v where "n = Proposition i v"
  | (SVOClause) s sv vb vv ob ov where "n = SVOClause s sv vb vv ob ov"
  | (ClassificationEdge) a av b bv where "n = ClassificationEdge a av b bv"
  using assms by (cases n) (auto simp: is_fact_def)

lemma unify_proposition_Inr:
  "\<exists>r. unify_proposition (Proposition pi pv) (Proposition fi fv) s = Inr r"
  by simp

lemma and_then_Inr:
  "\<exists>x. r = Inr x \<Longrightarrow> (\<And>t. \<exists>x. k t = Inr x) \<Longrightarrow> \<exists>x. and_then r k = Inr x"
  by (auto simp: and_then_def split: option.splits)

lemma and_then_Some:
  "and_then r k = Inr (Some s') \<longleftrightarrow> (\<exists>s1. r = Inr (Some s1) \<and> k s1 = Inr (Some s'))"
  by (auto simp: and_then_def split: sum.splits option.splits)

declare unify_proposition.simps [simp del]

text \<open>unify on facts, from the empty substitution, is the dispatch on the class.\<close>

lemma unify_empty_Proposition:
  "unify (Proposition pi pv) f [] =
     (case f of Proposition fi fv \<Rightarrow> unify_proposition (Proposition pi pv) (Proposition fi fv) []
      | SVOClause s sv vb vv ob ov \<Rightarrow> Inr None
      | ClassificationEdge a av b bv \<Rightarrow> Inr None
      | _ \<Rightarrow> Inl TypeError)"
  by (cases f) (simp_all add: unify_def)

lemma unify_empty_SVOClause:
  "unify (SVOClause ps psv pv pvv po pov) f [] =
     (case f of SVOClause s sv vb vv ob ov \<Rightarrow>
         unify_svo_clause (SVOClause ps psv pv pvv po pov) (SVOClause s sv vb vv ob ov) []
      | Proposition fi fv \<Rightarrow> Inr None
      | ClassificationEdge a av b bv \<Rightarrow> Inr None
      | _ \<Rightarrow> Inl TypeError)"
  by (cases f) (simp_all add: unify_def)

lemma unify_empty_ClassificationEdge:
  "unify (ClassificationEdge pa pav pb pbv) f [] =
     (case f of ClassificationEdge a av b bv \<Rightarrow>
         unify_classification_edge (ClassificationEdge pa pav pb pbv) (ClassificationEdge a av b bv) []
      | Proposition fi fv \<Rightarrow> Inr None
      | SVOClause s sv vb vv ob ov \<Rightarrow> Inr None
      | _ \<Rightarrow> Inl TypeError)"
  by (cases f) (simp_all add: unify_def)

lemma unify_not_fact_pattern: "\<not> is_fact p \<Longrightarrow> unify p f s = Inl TypeError"
  by (simp add: unify_def apply_substitution_not_fact)

lemma unify_facts_Inr:
  assumes "is_fact p" and "is_fact f"
  shows "\<exists>r. unify p f [] = Inr r"
  using assms(1)
proof (cases p rule: is_fact_cases)
  case (Proposition i v)
  with assms(2) show ?thesis
    by (cases f rule: is_fact_cases) (auto simp: unify_empty_Proposition unify_proposition_Inr)
next
  case (SVOClause s sv vb vv ob ov)
  with assms(2) show ?thesis
    by (cases f rule: is_fact_cases)
       (auto simp: unify_empty_SVOClause intro!: and_then_Inr unify_proposition_Inr)
next
  case (ClassificationEdge a av b bv)
  with assms(2) show ?thesis
    by (cases f rule: is_fact_cases)
       (auto simp: unify_empty_ClassificationEdge intro!: and_then_Inr unify_proposition_Inr)
qed

text \<open>An invariant of the steps of unify_proposition is an invariant of unify.\<close>

lemma unify_empty_invariant:
  assumes u: "unify p f [] = Inr (Some s')" and Q: "Q []"
    and step: "\<And>pi pv fi fv t t'. pi \<in> node_names p \<Longrightarrow> fi \<in> node_names f \<Longrightarrow>
       unify_proposition (Proposition pi pv) (Proposition fi fv) t = Inr (Some t') \<Longrightarrow> Q t \<Longrightarrow> Q t'"
  shows "Q s'"
proof -
  have fp: "is_fact p"
    using u unify_not_fact_pattern [of p f "[]"] by auto
  show ?thesis
    using fp
  proof (cases p rule: is_fact_cases)
    case (Proposition i v)
    with u Q show ?thesis
      by (cases f) (auto simp: unify_empty_Proposition intro: step [where t = "[]"])
  next
    case (SVOClause s sv vb vv ob ov)
    with u obtain a av b bv c cv where f: "f = SVOClause a av b bv c cv"
      by (cases f) (auto simp: unify_empty_SVOClause)
    from u obtain s1 s2 where
      "unify_proposition (Proposition s sv) (Proposition a av) [] = Inr (Some s1)"
      "unify_proposition (Proposition vb vv) (Proposition b bv) s1 = Inr (Some s2)"
      "unify_proposition (Proposition ob ov) (Proposition c cv) s2 = Inr (Some s')"
      by (auto simp: SVOClause f unify_empty_SVOClause and_then_Some)
    then show ?thesis
      using Q step [of s a sv av "[]" s1] step [of vb b vv bv s1 s2] step [of ob c ov cv s2 s']
      by (simp add: SVOClause f)
  next
    case (ClassificationEdge a av b bv)
    with u obtain c cv d dv where f: "f = ClassificationEdge c cv d dv"
      by (cases f) (auto simp: unify_empty_ClassificationEdge)
    from u obtain s1 where
      "unify_proposition (Proposition a av) (Proposition c cv) [] = Inr (Some s1)"
      "unify_proposition (Proposition b bv) (Proposition d dv) s1 = Inr (Some s')"
      by (auto simp: ClassificationEdge f unify_empty_ClassificationEdge and_then_Some)
    then show ?thesis
      using Q step [of a c av cv "[]" s1] step [of b d bv dv s1 s']
      by (simp add: ClassificationEdge f)
  qed
qed

lemma unify_proposition_distinct:
  "unify_proposition p f s = Inr (Some s') \<Longrightarrow> distinct (map fst s) \<Longrightarrow> distinct (map fst s')"
  by (cases "(p, f, s)" rule: unify_proposition.cases)
     (auto simp: unify_proposition.simps contains_def map_of_eq_None_iff split: if_splits)

lemma unify_empty_distinct: "unify p f [] = Inr (Some s) \<Longrightarrow> distinct (map fst s)"
  by (erule unify_empty_invariant) (auto dest: unify_proposition_distinct)

lemma map_of_snoc:
  "map_of c k = None \<Longrightarrow> map_of (c @ [(k, v)]) k' = (if k' = k then Some v else map_of c k')"
  by (simp add: map_add_def split: option.splits)

lemma merge_items_None:
  "distinct (map fst items) \<Longrightarrow>
     merge_items c items = None \<longleftrightarrow>
       (\<exists>k v w. map_of items k = Some v \<and> map_of c k = Some w \<and> w \<noteq> v)"
proof (induction items arbitrary: c)
  case Nil
  then show ?case by simp
next
  case (Cons a items)
  obtain k v where a: "a = (k, v)" by (cases a)
  from Cons.prems have nk: "map_of items k = None" and d: "distinct (map fst items)"
    by (auto simp: a map_of_eq_None_iff)
  show ?case
  proof (cases "map_of c k")
    case None
    have "merge_items c (a # items) = merge_items (c @ [(k, v)]) items"
      using None by (simp add: a contains_def)
    also have "\<dots> = None \<longleftrightarrow>
      (\<exists>k' v' w. map_of items k' = Some v' \<and> map_of (c @ [(k, v)]) k' = Some w \<and> w \<noteq> v')"
      by (rule Cons.IH [OF d])
    also have "\<dots> \<longleftrightarrow>
      (\<exists>k' v' w. map_of (a # items) k' = Some v' \<and> map_of c k' = Some w \<and> w \<noteq> v')"
    proof -
      have "\<And>k'. map_of (c @ [(k, v)]) k' = (if k' = k then Some v else map_of c k')"
        by (rule map_of_snoc [OF None])
      then show ?thesis
        using None nk unfolding a by (simp del: map_of_append)
    qed
    finally show ?thesis .
  next
    case (Some w)
    show ?thesis
    proof (cases "w = v")
      case True
      have "merge_items c (a # items) = merge_items c items"
        using Some True by (simp add: a contains_def getitem_def)
      also have "\<dots> = None \<longleftrightarrow>
        (\<exists>k' v' w. map_of items k' = Some v' \<and> map_of c k' = Some w \<and> w \<noteq> v')"
        by (rule Cons.IH [OF d])
      also have "\<dots> \<longleftrightarrow>
        (\<exists>k' v' w. map_of (a # items) k' = Some v' \<and> map_of c k' = Some w \<and> w \<noteq> v')"
        using Some True nk unfolding a by simp (metis option.distinct(1))
      finally show ?thesis .
    next
      case False
      have "merge_items c (a # items) = None"
        using Some False by (simp add: a contains_def getitem_def)
      moreover have "\<exists>k' v' w. map_of (a # items) k' = Some v' \<and> map_of c k' = Some w \<and> w \<noteq> v'"
        using Some False by (auto simp: a intro!: exI [of _ k])
      ultimately show ?thesis by simp
    qed
  qed
qed

lemma merge_items_Some:
  "distinct (map fst items) \<Longrightarrow> merge_items c items = Some c' \<Longrightarrow>
     map_of c' k = Some v \<longleftrightarrow> map_of c k = Some v \<or> map_of items k = Some v"
proof (induction items arbitrary: c)
  case Nil
  then show ?case by simp
next
  case (Cons a items)
  obtain k0 v0 where a: "a = (k0, v0)" by (cases a)
  from Cons.prems have nk: "map_of items k0 = None" and d: "distinct (map fst items)"
    by (auto simp: a map_of_eq_None_iff)
  show ?case
  proof (cases "map_of c k0")
    case None
    then have "merge_items (c @ [(k0, v0)]) items = Some c'"
      using Cons.prems(2) by (simp add: a contains_def)
    from Cons.IH [OF d this] have "map_of c' k = Some v \<longleftrightarrow>
        map_of (c @ [(k0, v0)]) k = Some v \<or> map_of items k = Some v" .
    also have "map_of (c @ [(k0, v0)]) k = (if k = k0 then Some v0 else map_of c k)"
      by (rule map_of_snoc [OF None])
    finally show ?thesis
      using None nk unfolding a by (simp del: map_of_append)
  next
    case (Some w)
    with Cons.prems(2) have w: "w = v0" and m: "merge_items c items = Some c'"
      by (auto simp: a contains_def getitem_def split: if_splits)
    from Cons.IH [OF d m] show ?thesis
      using Some w nk by (auto simp: a)
  qed
qed

lemma all_binds_Cons:
  assumes "distinct (map fst s)" and "merge_items c s = Some c1"
  shows "all_binds c1 rest k v = all_binds c ((f, s) # rest) k v"
  using merge_items_Some [OF assms, of k v] by (auto simp: all_binds_def binds_def)

lemma merge_combination_spec:
  "\<forall>m\<in>set combination. distinct (map fst (snd m)) \<Longrightarrow>
     (merge_combination c combination = None \<longleftrightarrow>
        (\<exists>k v w. v \<noteq> w \<and> all_binds c combination k v \<and> all_binds c combination k w)) \<and>
     (\<forall>c'. merge_combination c combination = Some c' \<longrightarrow>
        (\<forall>k v. map_of c' k = Some v \<longleftrightarrow> all_binds c combination k v))"
proof (induction combination arbitrary: c)
  case Nil
  then show ?case by (auto simp: all_binds_def binds_def)
next
  case (Cons m rest)
  obtain f s where m: "m = (f, s)" by (cases m)
  from Cons.prems have ds: "distinct (map fst s)" and dr: "\<forall>m\<in>set rest. distinct (map fst (snd m))"
    by (auto simp: m)
  show ?case
  proof (cases "merge_items c s")
    case None
    then obtain k v w where "map_of s k = Some v" "map_of c k = Some w" "w \<noteq> v"
      using merge_items_None [OF ds, of c] by auto
    then have "\<exists>k v w. v \<noteq> w \<and> all_binds c (m # rest) k v \<and> all_binds c (m # rest) k w"
      by (intro exI [of _ k] exI [of _ v] exI [of _ w]) (auto simp: all_binds_def binds_def m)
    with None show ?thesis by (simp add: m)
  next
    case (Some c1)
    have eq: "\<And>k v. all_binds c1 rest k v = all_binds c (m # rest) k v"
      unfolding m by (rule all_binds_Cons [OF ds Some])
    have "merge_combination c (m # rest) = merge_combination c1 rest"
      using Some by (simp add: m)
    with Cons.IH [OF dr, of c1] show ?thesis
      by (simp add: eq)
  qed
qed

lemma map_of_Nil_binds: "all_binds [] combination k v = binds combination k v"
  by (simp add: all_binds_def)

lemma combine_None:
  "\<forall>m\<in>set combination. distinct (map fst (snd m)) \<Longrightarrow>
     combine combination = None \<longleftrightarrow> conflicting combination"
  using merge_combination_spec [of combination "[]"]
  by (simp add: combine_def conflicting_def map_of_Nil_binds)

lemma combine_Some:
  "\<forall>m\<in>set combination. distinct (map fst (snd m)) \<Longrightarrow> combine combination = Some c \<Longrightarrow>
     map_of c k = Some v \<longleftrightarrow> binds combination k v"
  using merge_combination_spec [of combination "[]"]
  by (simp add: combine_def map_of_Nil_binds)

lemma match_case_iff:
  "(a, b) \<in> (case r of Inr (Some s) \<Rightarrow> {(f, s)} | _ \<Rightarrow> {}) \<longleftrightarrow> a = f \<and> r = Inr (Some b)"
  by (cases r) (auto split: option.splits)

lemma matches_of_iff: "m \<in> matches_of premise fs \<longleftrightarrow> is_match premise fs m"
  by (cases m) (auto simp: matches_of_def is_match_def match_case_iff)

lemma itertools_product_iff:
  "xs \<in> itertools_product As \<longleftrightarrow> length xs = length As \<and> (\<forall>i<length As. xs ! i \<in> As ! i)"
proof (induction As arbitrary: xs)
  case Nil
  then show ?case by simp
next
  case (Cons A As)
  show ?case
  proof (cases xs)
    case Nil
    then show ?thesis by auto
  next
    case (Cons x xs')
    then show ?thesis
      using Cons.IH [of xs'] by (auto simp: nth_Cons split: nat.splits)
  qed
qed

lemma product_matches_iff:
  "combination \<in> itertools_product (map (\<lambda>p. matches_of p fs) premises) \<longleftrightarrow>
     is_combination premises fs combination"
  by (simp add: itertools_product_iff is_combination_def matches_of_iff)

lemma unify_facts_not_isl: "is_fact p \<Longrightarrow> is_fact f \<Longrightarrow> \<not> isl (unify p f [])"
  using unify_facts_Inr [of p f] by auto

lemma apply_substitution_facts_not_isl: "is_fact n \<Longrightarrow> \<not> isl (apply_substitution n s)"
  using apply_substitution_fact [of n s] by auto

lemma derived_case_iff:
  "d \<in> (case r of Inr derived_fact \<Rightarrow> if derived_fact \<notin> F then {derived_fact} else {} | Inl e \<Rightarrow> {})
     \<longleftrightarrow> r = Inr d \<and> d \<notin> F"
  by (cases r) auto

lemma combined_case_iff:
  "c \<in> (case r of None \<Rightarrow> {} | Some c' \<Rightarrow> {c'}) \<longleftrightarrow> r = Some c"
  by (cases r) auto

lemma is_match_distinct: "is_match p fs m \<Longrightarrow> distinct (map fst (snd m))"
  by (auto simp: is_match_def dest: unify_empty_distinct)

lemma is_combination_distinct:
  assumes "is_combination premises fs combination"
  shows "\<forall>m\<in>set combination. distinct (map fst (snd m))"
proof
  fix m assume "m \<in> set combination"
  then obtain i where "i < length combination" "combination ! i = m"
    by (auto simp: in_set_conv_nth)
  with assms show "distinct (map fst (snd m))"
    by (auto simp: is_combination_def dest: is_match_distinct)
qed

lemmas unify_eval = unify_def unify_proposition.simps and_then_def contains_def getitem_def

text \<open>What a rule over facts derives, for the rule engine and for the fixpoint.\<close>

lemma apply_rule_derived_facts:
  assumes wp: "\<forall>p\<in>set premises. is_fact p" and wc: "is_fact conclusion"
    and wf: "\<forall>f\<in>facts ctx. is_fact f"
  shows "apply_rule (Rule premises conclusion) ctx =
    Inr (derived_facts premises conclusion (facts ctx))"
proof -
  have no1: "\<not> (\<exists>premise\<in>set premises. \<exists>f\<in>facts ctx. isl (unify premise f []))"
    using wp wf unify_facts_not_isl by blast
  have no2: "\<And>C. \<not> (\<exists>c\<in>C. isl (apply_substitution conclusion c))"
    using wc apply_substitution_facts_not_isl by blast
  have empty_iff: "(\<exists>matches\<in>set (map (\<lambda>premise. matches_of premise (facts ctx)) premises). matches = {})
     \<longleftrightarrow> (\<exists>p\<in>set premises. \<forall>m. \<not> is_match p (facts ctx) m)"
    by (auto simp: matches_of_iff [symmetric])
  show ?thesis
  proof (cases "\<exists>p\<in>set premises. \<forall>m. \<not> is_match p (facts ctx) m")
    case True
    then show ?thesis
      using no1 empty_iff by (simp add: derived_facts_def Let_def)
  next
    case False
    have "(\<Union>c\<in>(\<Union>combination\<in>itertools_product (map (\<lambda>premise. matches_of premise (facts ctx)) premises).
               case combine combination of None \<Rightarrow> {} | Some c \<Rightarrow> {c}).
            case apply_substitution conclusion c of
              Inr derived_fact \<Rightarrow> if derived_fact \<notin> facts ctx then {derived_fact} else {}
            | Inl e \<Rightarrow> {}) = derived_facts premises conclusion (facts ctx)"
      using False
      by (auto simp: derived_facts_def derived_case_iff combined_case_iff product_matches_iff)
    moreover have "(\<exists>premise\<in>set premises. \<exists>f\<in>facts ctx. isl (unify premise f [])) = False"
      using no1 by simp
    moreover have "(\<exists>matches\<in>set (map (\<lambda>premise. matches_of premise (facts ctx)) premises).
        matches = {}) = False"
      using False empty_iff by simp
    moreover have "\<And>C. (\<exists>c\<in>C. isl (apply_substitution conclusion c)) = False"
      using no2 by simp
    ultimately show ?thesis
      by (simp only: apply_rule.simps Let_def if_False)
  qed
qed

lemma evaluate_query_facts:
  assumes "is_fact (query_expression query)" and "\<forall>f\<in>facts ctx. is_fact f"
  shows "evaluate_query query ctx =
     Inr (if \<exists>f\<in>facts ctx. \<exists>s. unify (query_expression query) f [] = Inr (Some s)
          then derivable_symbol else not_derivable_symbol)"
proof -
  have no: "\<not> (\<exists>f\<in>facts ctx. isl (unify (query_expression query) f []))"
    using assms unify_facts_not_isl by blast
  have "(\<exists>f\<in>facts ctx. unify (query_expression query) f [] \<noteq> Inr None) \<longleftrightarrow>
        (\<exists>f\<in>facts ctx. \<exists>s. unify (query_expression query) f [] = Inr (Some s))"
  proof -
    have "\<And>f. f \<in> facts ctx \<Longrightarrow> unify (query_expression query) f [] \<noteq> Inr None \<longleftrightarrow>
       (\<exists>s. unify (query_expression query) f [] = Inr (Some s))"
    proof -
      fix f assume "f \<in> facts ctx"
      then obtain r where "unify (query_expression query) f [] = Inr r"
        using assms unify_facts_Inr by blast
      then show "unify (query_expression query) f [] \<noteq> Inr None \<longleftrightarrow>
       (\<exists>s. unify (query_expression query) f [] = Inr (Some s))"
        by (cases r) auto
    qed
    then show ?thesis by blast
  qed
  with no show ?thesis
    by (simp add: evaluate_query_def Let_def)
qed

section \<open>Unification across classes\<close>

text \<open>
  C9 (as amended). Unifying a pattern and a fact of two different classes never yields a
  substitution: it returns the failure \<open>None\<close> when both nodes are propositions, SVO
  clauses or classification edges, and raises \<open>TypeError\<close> (from the substitution that
  \<open>unify\<close> applies first) when either node is a rule, a query or a verb declaration.
\<close>

theorem unify_different_classes:
  "node_type pattern \<noteq> node_type fct \<Longrightarrow>
     unify pattern fct s =
       (if is_fact pattern \<and> is_fact fct then Inr None else Inl TypeError)"
proof (cases "is_fact pattern")
  case False
  then show ?thesis
    by (simp add: unify_def apply_substitution_not_fact)
next
  case pat: True
  then obtain p' where p': "apply_substitution pattern s = Inr p'"
    using apply_substitution_fact by blast
  assume diff: "node_type pattern \<noteq> node_type fct"
  show ?thesis
  proof (cases "is_fact fct")
    case False
    then show ?thesis
      by (simp add: unify_def p' apply_substitution_not_fact)
  next
    case True
    then obtain f' where f': "apply_substitution fct s = Inr f'"
      using apply_substitution_fact by blast
    have "node_type p' \<noteq> node_type f'"
      using diff apply_substitution_type [OF p'] apply_substitution_type [OF f'] by simp
    then show ?thesis
      using pat True by (simp add: unify_def p' f')
  qed
qed

theorem unify_different_classes_witness:
  "unify (Proposition [65] False) (SVOClause [66] False [67] False [68] False) [] = Inr None"
  using unify_different_classes
    [of "Proposition [65] False" "SVOClause [66] False [67] False [68] False" "[]"]
  by (simp add: is_fact_def)

text \<open>
  The claim as stated fails for a query pattern against a proposition: \<open>unify\<close> raises
  instead of returning the failure.
\<close>

theorem unify_query_pattern_raises:
  "unify (Query (Proposition [65] False)) (Proposition [65] False) [] = Inl TypeError"
  by (simp add: unify_def)

section \<open>The rule engine and the query evaluator\<close>

text \<open>
  C10. A rule without premises fires unconditionally: \<open>apply_rule\<close> returns the set that
  holds the conclusion, unchanged, when the conclusion is not yet a fact of the context,
  and the empty set when it is. The conclusion is a proposition, an SVO clause or a
  classification edge, as the slot of a \<open>Rule\<close> is annotated.
\<close>

theorem apply_rule_no_premises:
  "is_fact conclusion \<Longrightarrow>
     apply_rule (Rule [] conclusion) ctx =
       Inr (if conclusion \<in> facts ctx then {} else {conclusion})"
  by (simp add: combine_def apply_substitution_empty)

theorem apply_rule_no_premises_witness:
  "apply_rule (Rule [] (Proposition [66] False))
     \<lparr>facts = {}, classification_edges = {}, rules = [], verb_lexicon = {}\<rparr> =
   Inr {Proposition [66] False}"
  using apply_rule_no_premises [of "Proposition [66] False"
    "\<lparr>facts = {}, classification_edges = {}, rules = [], verb_lexicon = {}\<rparr>"]
  by (simp add: is_fact_def)

text \<open>
  C6. For a query whose expression is a proposition, an SVO clause or a classification
  edge, and a fact set of such nodes, \<open>evaluate_query\<close> returns the derivable symbol if
  some fact of the set unifies with the expression from the empty substitution, and the
  not-derivable symbol otherwise; the two symbols differ, and the result is a symbol
  only: it carries no binding.
\<close>

theorem evaluate_query_spec:
  assumes "is_fact (query_expression query)" and "\<forall>f\<in>facts ctx. is_fact f"
  shows "evaluate_query query ctx =
     Inr (if \<exists>f\<in>facts ctx. \<exists>s. unify (query_expression query) f [] = Inr (Some s)
          then derivable_symbol else not_derivable_symbol)
     \<and> derivable_symbol \<noteq> not_derivable_symbol"
  using evaluate_query_facts [OF assms]
  by (simp add: derivable_symbol_def not_derivable_symbol_def)

theorem evaluate_query_spec_witness:
  "evaluate_query (Query (SVOClause [20854, 88] True [21916, 27489] False [34315, 26524] False))
     \<lparr>facts = {SVOClause [23567, 26126] False [21916, 27489] False [34315, 26524] False},
      classification_edges = {}, rules = [], verb_lexicon = {[21916, 27489]}\<rparr> =
   Inr derivable_symbol"
  using evaluate_query_spec
    [of "Query (SVOClause [20854, 88] True [21916, 27489] False [34315, 26524] False)"
        "\<lparr>facts = {SVOClause [23567, 26126] False [21916, 27489] False [34315, 26524] False},
          classification_edges = {}, rules = [], verb_lexicon = {[21916, 27489]}\<rparr>"]
  by (simp add: is_fact_def unify_eval)

text \<open>
  C1. For a rule whose premises and conclusion are propositions, SVO clauses or
  classification edges, and such a fact set, \<open>apply_rule\<close> returns a set \<open>derived\<close>:
  empty when some premise has no match; otherwise holding exactly the nodes that are not
  yet facts and that are the conclusion under the merged substitution of a combination
  (one match for every premise, each match a fact with the substitution that unifying
  the premise with it from the empty substitution gives). The merge rejects a
  combination exactly when two of its substitutions bind one variable to two values,
  and the merged substitution binds exactly what some substitution of the combination
  binds.
\<close>

theorem apply_rule_spec:
  assumes wp: "\<forall>p\<in>set premises. is_fact p" and wc: "is_fact conclusion"
    and wf: "\<forall>f\<in>facts ctx. is_fact f"
  shows "\<exists>derived. apply_rule (Rule premises conclusion) ctx = Inr derived \<and>
    ((\<exists>p\<in>set premises. \<forall>m. \<not> is_match p (facts ctx) m) \<longrightarrow> derived = {}) \<and>
    ((\<forall>p\<in>set premises. \<exists>m. is_match p (facts ctx) m) \<longrightarrow>
       (\<forall>d. d \<in> derived \<longleftrightarrow>
          d \<notin> facts ctx \<and>
          (\<exists>combination c. is_combination premises (facts ctx) combination \<and>
             combine combination = Some c \<and> apply_substitution conclusion c = Inr d))) \<and>
    (\<forall>combination. is_combination premises (facts ctx) combination \<longrightarrow>
       (combine combination = None \<longleftrightarrow> conflicting combination) \<and>
       (\<forall>c. combine combination = Some c \<longrightarrow>
          (\<forall>var val. map_of c var = Some val \<longleftrightarrow> binds combination var val)))"
proof -
  have "apply_rule (Rule premises conclusion) ctx =
      Inr (derived_facts premises conclusion (facts ctx))"
    using assms by (rule apply_rule_derived_facts)
  moreover have "(\<exists>p\<in>set premises. \<forall>m. \<not> is_match p (facts ctx) m) \<longrightarrow>
      derived_facts premises conclusion (facts ctx) = {}"
    by (simp add: derived_facts_def)
  moreover have "(\<forall>p\<in>set premises. \<exists>m. is_match p (facts ctx) m) \<longrightarrow>
       (\<forall>d. d \<in> derived_facts premises conclusion (facts ctx) \<longleftrightarrow>
          d \<notin> facts ctx \<and>
          (\<exists>combination c. is_combination premises (facts ctx) combination \<and>
             combine combination = Some c \<and> apply_substitution conclusion c = Inr d))"
    by (auto simp: derived_facts_def)
  moreover have "\<forall>combination. is_combination premises (facts ctx) combination \<longrightarrow>
       (combine combination = None \<longleftrightarrow> conflicting combination) \<and>
       (\<forall>c. combine combination = Some c \<longrightarrow>
          (\<forall>var val. map_of c var = Some val \<longleftrightarrow> binds combination var val))"
    using combine_None combine_Some is_combination_distinct by blast
  ultimately show ?thesis by blast
qed

theorem apply_rule_spec_witness:
  "apply_rule (Rule [Proposition [65] False, Proposition [20854, 88] True] (SVOClause [20854, 88] True [86] False [65] False))
     \<lparr>facts = {Proposition [65] False, Proposition [66] False}, classification_edges = {}, rules = [],
      verb_lexicon = {}\<rparr> =
   Inr {SVOClause [65] False [86] False [65] False, SVOClause [66] False [86] False [65] False}"
  using apply_rule_spec
    [of "[Proposition [65] False, Proposition [20854, 88] True]" "SVOClause [20854, 88] True [86] False [65] False"
        "\<lparr>facts = {Proposition [65] False, Proposition [66] False}, classification_edges = {}, rules = [],
          verb_lexicon = {}\<rparr>"]
  by (auto simp add: is_fact_def unify_eval matches_of_def combine_def)

section \<open>The closure of the classification edges\<close>

lemma edge_cases:
  assumes "node_type e = ClassificationEdgeT"
  obtains a av b bv where "e = ClassificationEdge a av b bv"
  using assms by (cases e) auto

lemma all_edges_member:
  "all_edges S \<Longrightarrow> e \<in> S \<Longrightarrow> \<exists>a av b bv. e = ClassificationEdge a av b bv"
  by (cases e) (auto simp: all_edges_def)

lemma finite_edge_universe: "finite S \<Longrightarrow> finite (edge_universe S)"
  by (simp add: edge_universe_def)

lemma transitive_edge_self:
  "node_type e = ClassificationEdgeT \<Longrightarrow> transitive_edge e e = e"
  by (erule edge_cases) (simp add: transitive_edge_def)

lemma subset_edge_universe: "all_edges S \<Longrightarrow> S \<subseteq> edge_universe S"
proof
  fix e assume "all_edges S" "e \<in> S"
  then have "transitive_edge e e = e"
    by (simp add: all_edges_def transitive_edge_self)
  with \<open>e \<in> S\<close> show "e \<in> edge_universe S"
    unfolding edge_universe_def by force
qed

lemma new_edges_iff:
  "n \<in> new_edges S \<longleftrightarrow>
     (\<exists>e1\<in>S. \<exists>e2\<in>S. chained e1 e2 \<and> n = transitive_edge e1 e2 \<and> n \<notin> S)"
  by (auto simp: new_edges_def split: if_splits)

lemma new_edges_universe: "new_edges S \<subseteq> edge_universe S - S"
  by (auto simp: new_edges_iff edge_universe_def)

lemma new_edges_are_edges: "n \<in> new_edges S \<Longrightarrow> node_type n = ClassificationEdgeT"
  by (auto simp: new_edges_iff transitive_edge_def)

lemma transitive_edge_twice:
  "transitive_edge (transitive_edge a b) (transitive_edge c d) = transitive_edge a d"
  by (simp add: transitive_edge_def)

lemma transitive_edge_left:
  "node_type c = ClassificationEdgeT \<Longrightarrow> transitive_edge (transitive_edge a b) c = transitive_edge a c"
  by (simp add: transitive_edge_def)

lemma transitive_edge_right:
  "transitive_edge c (transitive_edge a b) = transitive_edge c b"
  by (simp add: transitive_edge_def)

lemma edge_universe_step: "edge_universe (S \<union> new_edges S) = edge_universe S"
proof
  show "edge_universe S \<subseteq> edge_universe (S \<union> new_edges S)"
    by (auto simp: edge_universe_def)
  show "edge_universe (S \<union> new_edges S) \<subseteq> edge_universe S"
  proof
    fix n assume "n \<in> edge_universe (S \<union> new_edges S)"
    then obtain e1 e2 where e: "e1 \<in> S \<union> new_edges S" "e2 \<in> S \<union> new_edges S"
      and n: "n = transitive_edge e1 e2"
      by (auto simp: edge_universe_def)
    from e(1) obtain a where a: "a \<in> S" "transitive_edge e1 e2 = transitive_edge a e2"
      by (auto simp: new_edges_iff transitive_edge_def)
    from e(2) obtain b where b: "b \<in> S" "transitive_edge a e2 = transitive_edge a b"
      by (auto simp: new_edges_iff transitive_edge_def)
    from a b n show "n \<in> edge_universe S"
      by (auto simp: edge_universe_def)
  qed
qed

lemma transitively_closedD:
  "transitively_closed S \<Longrightarrow> ClassificationEdge a av b False \<in> S \<Longrightarrow>
     ClassificationEdge b False c cv \<in> S \<Longrightarrow> ClassificationEdge a av c cv \<in> S"
  unfolding transitively_closed_def by blast

lemma chained_edges:
  "chained (ClassificationEdge a av b bv) (ClassificationEdge c cv d dv) \<longleftrightarrow>
     \<not> bv \<and> \<not> cv \<and> b = c"
  by (simp add: chained_def)

lemma transitive_edge_edges:
  "transitive_edge (ClassificationEdge a av b bv) (ClassificationEdge c cv d dv) =
     ClassificationEdge a av d dv"
  by (simp add: transitive_edge_def)

lemma closed_iff_no_new_edges:
  assumes "all_edges S"
  shows "transitively_closed S \<longleftrightarrow> new_edges S = {}"
proof
  assume c: "transitively_closed S"
  show "new_edges S = {}"
  proof (rule ccontr)
    assume "new_edges S \<noteq> {}"
    then obtain e1 e2 where e: "e1 \<in> S" "e2 \<in> S" "chained e1 e2" "transitive_edge e1 e2 \<notin> S"
      by (auto simp: new_edges_iff)
    from e(1) assms obtain a av b bv where e1: "e1 = ClassificationEdge a av b bv"
      using all_edges_member by blast
    from e(2) assms obtain c' cv d dv where e2: "e2 = ClassificationEdge c' cv d dv"
      using all_edges_member by blast
    from e(3) have "\<not> bv" "\<not> cv" "b = c'"
      by (simp_all add: e1 e2 chained_edges)
    with e(1,2) have "ClassificationEdge a av d dv \<in> S"
      unfolding e1 e2 using transitively_closedD [OF c] by simp
    with e(4) show False
      by (simp add: e1 e2 transitive_edge_edges)
  qed
next
  assume "new_edges S = {}"
  then have *: "\<And>e1 e2. e1 \<in> S \<Longrightarrow> e2 \<in> S \<Longrightarrow> chained e1 e2 \<Longrightarrow> transitive_edge e1 e2 \<in> S"
    using new_edges_iff [of _ S] by blast
  show "transitively_closed S"
    unfolding transitively_closed_def
  proof (intro allI impI)
    fix a av b c cv
    assume "ClassificationEdge a av b False \<in> S \<and> ClassificationEdge b False c cv \<in> S"
    then show "ClassificationEdge a av c cv \<in> S"
      using * [of "ClassificationEdge a av b False" "ClassificationEdge b False c cv"]
      by (simp add: chained_edges transitive_edge_edges)
  qed
qed

lemma new_edges_in_closed:
  assumes "S \<subseteq> T" and "transitively_closed T" and "all_edges S"
  shows "new_edges S \<subseteq> T"
proof
  fix n assume "n \<in> new_edges S"
  then obtain e1 e2 where e: "e1 \<in> S" "e2 \<in> S" "chained e1 e2" "n = transitive_edge e1 e2"
    by (auto simp: new_edges_iff)
  from e(1) assms obtain a av b bv where e1: "e1 = ClassificationEdge a av b bv"
    using all_edges_member by blast
  from e(2) assms obtain c' cv d dv where e2: "e2 = ClassificationEdge c' cv d dv"
    using all_edges_member by blast
  from e(3) have "\<not> bv" "\<not> cv" "b = c'"
    by (simp_all add: e1 e2 chained_edges)
  with e(1,2) assms(1) have "ClassificationEdge a av b False \<in> T"
      "ClassificationEdge b False d dv \<in> T"
    by (auto simp: e1 e2)
  then have "ClassificationEdge a av d dv \<in> T"
    by (rule transitively_closedD [OF assms(2)])
  with e(4) show "n \<in> T"
    by (simp add: e1 e2 transitive_edge_edges)
qed

lemma closure_loop_edges:
  "all_edges S \<Longrightarrow> closure_loop S =
     (if new_edges S = {} then Some (Inr S) else closure_loop (S \<union> new_edges S))"
  by (subst closure_loop.simps) (auto simp: all_edges_def)

lemma closure_loop_total:
  assumes "finite S" and "all_edges S"
  shows "\<exists>C. closure_loop S = Some (Inr C) \<and> S \<subseteq> C \<and> finite C \<and> all_edges C \<and>
     new_edges C = {} \<and> (\<forall>T. S \<subseteq> T \<and> transitively_closed T \<longrightarrow> C \<subseteq> T)"
  using assms
proof (induction "card (edge_universe S - S)" arbitrary: S rule: less_induct)
  case less
  show ?case
  proof (cases "new_edges S = {}")
    case True
    with less.prems show ?thesis
      by (auto simp: closure_loop_edges)
  next
    case False
    let ?S = "S \<union> new_edges S"
    have fin: "finite (edge_universe S)"
      using less.prems(1) by (rule finite_edge_universe)
    have sub: "new_edges S \<subseteq> edge_universe S - S"
      by (rule new_edges_universe)
    have fS: "finite ?S"
      using less.prems(1) fin sub by (meson finite_Diff finite_UnI finite_subset)
    have eS: "all_edges ?S"
      using less.prems(2) by (auto simp: all_edges_def new_edges_are_edges)
    have "edge_universe ?S - ?S \<subset> edge_universe S - S"
      using sub False by (auto simp: edge_universe_step)
    then have "card (edge_universe ?S - ?S) < card (edge_universe S - S)"
      using fin by (intro psubset_card_mono) auto
    from less.hyps [OF this fS eS]
    obtain C where C: "closure_loop ?S = Some (Inr C)" "?S \<subseteq> C" "finite C" "all_edges C"
      "new_edges C = {}" "\<forall>T. ?S \<subseteq> T \<and> transitively_closed T \<longrightarrow> C \<subseteq> T"
      by blast
    have "closure_loop S = Some (Inr C)"
      using False C(1) less.prems(2) by (simp add: closure_loop_edges)
    moreover have "\<forall>T. S \<subseteq> T \<and> transitively_closed T \<longrightarrow> C \<subseteq> T"
      using C(6) new_edges_in_closed [OF _ _ less.prems(2)] by (simp add: le_supI)
    ultimately show ?thesis
      using C by auto
  qed
qed

lemma closure_of_chain:
  "compute_classification_closure
     {ClassificationEdge [65] False [66] False, ClassificationEdge [66] False [67] False} =
   Some (Inr {ClassificationEdge [65] False [66] False, ClassificationEdge [66] False [67] False,
     ClassificationEdge [65] False [67] False})"
proof -
  let ?E = "{ClassificationEdge [65] False [66] False, ClassificationEdge [66] False [67] False}"
  let ?C = "{ClassificationEdge [65] False [66] False, ClassificationEdge [66] False [67] False,
     ClassificationEdge [65] False [67] False}"
  have n1: "new_edges ?E = {ClassificationEdge [65] False [67] False}"
    by (simp add: new_edges_def chained_def transitive_edge_def)
  have n2: "new_edges ?C = {}"
    by (simp add: new_edges_def chained_def transitive_edge_def)
  have "closure_loop ?E = closure_loop (?E \<union> new_edges ?E)"
    by (subst closure_loop_edges) (simp_all add: all_edges_def n1)
  also have "?E \<union> new_edges ?E = ?C"
    by (auto simp: n1)
  also have "closure_loop ?C = Some (Inr ?C)"
    by (subst closure_loop_edges) (simp_all add: all_edges_def n2)
  finally show ?thesis
    by (simp add: compute_classification_closure_def)
qed

text \<open>
  C3. For every finite set \<open>E\<close> of classification edges the closure computation returns
  a set, and that set is the least superset of \<open>E\<close> closed under the rule: with
  \<open>A \<sqsubseteq> B\<close> and \<open>B \<sqsubseteq> C\<close> present, the supertype of the first and the subtype of the
  second concrete and of one name, \<open>A \<sqsubseteq> C\<close> is present with the subtype name and flag
  of the first and the supertype name and flag of the second. Being the least such set,
  it holds no other edge.
\<close>

theorem closure_is_least_closed_superset:
  assumes "finite E" and "\<forall>e\<in>E. node_type e = ClassificationEdgeT"
  shows "\<exists>C. compute_classification_closure E = Some (Inr C) \<and> E \<subseteq> C \<and>
     transitively_closed C \<and> (\<forall>S. E \<subseteq> S \<and> transitively_closed S \<longrightarrow> C \<subseteq> S)"
proof -
  from assms have "all_edges E" by (simp add: all_edges_def)
  from closure_loop_total [OF assms(1) this] obtain C where
    C: "closure_loop E = Some (Inr C)" "E \<subseteq> C" "all_edges C" "new_edges C = {}"
      "\<forall>T. E \<subseteq> T \<and> transitively_closed T \<longrightarrow> C \<subseteq> T"
    by blast
  then have "transitively_closed C"
    by (simp add: closed_iff_no_new_edges)
  with C show ?thesis
    by (auto simp: compute_classification_closure_def)
qed

theorem closure_is_least_closed_superset_witness:
  "compute_classification_closure
     {ClassificationEdge [65] False [66] False, ClassificationEdge [66] False [67] False} =
   Some (Inr {ClassificationEdge [65] False [66] False, ClassificationEdge [66] False [67] False,
     ClassificationEdge [65] False [67] False}) \<and>
   transitively_closed {ClassificationEdge [65] False [66] False,
     ClassificationEdge [66] False [67] False, ClassificationEdge [65] False [67] False}"
  using closure_is_least_closed_superset
    [of "{ClassificationEdge [65] False [66] False, ClassificationEdge [66] False [67] False}"]
  by (auto simp: closure_of_chain)

text \<open>
  C7. The closure is idempotent: for every finite set of classification edges, the
  closure of its closure is its closure.
\<close>

theorem closure_idempotent:
  assumes "finite E" and "\<forall>e\<in>E. node_type e = ClassificationEdgeT"
  shows "\<exists>C. compute_classification_closure E = Some (Inr C) \<and>
     compute_classification_closure C = Some (Inr C)"
proof -
  from assms have "all_edges E" by (simp add: all_edges_def)
  from closure_loop_total [OF assms(1) this] obtain C where
    C: "closure_loop E = Some (Inr C)" "all_edges C" "new_edges C = {}"
    by blast
  then have "closure_loop C = Some (Inr C)"
    by (simp add: closure_loop_edges)
  with C show ?thesis
    by (auto simp: compute_classification_closure_def)
qed

theorem closure_idempotent_witness:
  "compute_classification_closure
     {ClassificationEdge [65] False [66] False, ClassificationEdge [66] False [67] False,
      ClassificationEdge [65] False [67] False} =
   Some (Inr {ClassificationEdge [65] False [66] False, ClassificationEdge [66] False [67] False,
     ClassificationEdge [65] False [67] False})"
  using closure_idempotent
    [of "{ClassificationEdge [65] False [66] False, ClassificationEdge [66] False [67] False}"]
  by (auto simp: closure_of_chain)

section \<open>The fixpoint driver and the evaluation of a program\<close>

lemma finite_fact_universe:
  assumes "finite N"
  shows "finite (fact_universe N)"
proof -
  have "fact_universe N \<subseteq>
      (\<lambda>(i, v). Proposition i v) ` (N \<times> UNIV) \<union>
      (\<lambda>(s, sv, vb, vv, ob, ov). SVOClause s sv vb vv ob ov) `
        (N \<times> UNIV \<times> N \<times> UNIV \<times> N \<times> UNIV) \<union>
      (\<lambda>(a, av, b, bv). ClassificationEdge a av b bv) ` (N \<times> UNIV \<times> N \<times> UNIV)"
  proof
    fix n assume "n \<in> fact_universe N"
    then have f: "is_fact n" and s: "node_names n \<subseteq> N"
      by (simp_all add: fact_universe_def)
    from f show "n \<in> (\<lambda>(i, v). Proposition i v) ` (N \<times> UNIV) \<union>
      (\<lambda>(s, sv, vb, vv, ob, ov). SVOClause s sv vb vv ob ov) `
        (N \<times> UNIV \<times> N \<times> UNIV \<times> N \<times> UNIV) \<union>
      (\<lambda>(a, av, b, bv). ClassificationEdge a av b bv) ` (N \<times> UNIV \<times> N \<times> UNIV)"
      using s by (cases n rule: is_fact_cases) (auto simp: image_iff)
  qed
  moreover have "finite (\<dots>)"
    using assms by simp
  ultimately show ?thesis
    by (rule finite_subset)
qed

lemma unify_proposition_values:
  assumes "unify_proposition (Proposition pi pv) (Proposition fi fv) t = Inr (Some t')"
    and "\<forall>kv\<in>set t. snd kv \<in> V" and "pi \<in> V" and "fi \<in> V"
  shows "\<forall>kv\<in>set t'. snd kv \<in> V"
  using assms by (auto simp: unify_proposition.simps split: if_splits)

lemma unify_empty_values:
  assumes "unify p f [] = Inr (Some s)" and "(k, v) \<in> set s"
  shows "v \<in> node_names p \<union> node_names f"
proof -
  have "\<forall>kv\<in>set s. snd kv \<in> node_names p \<union> node_names f"
    using assms(1)
    by (rule unify_empty_invariant) (auto dest!: unify_proposition_values [where V = "node_names p \<union> node_names f"])
  with assms(2) show ?thesis by auto
qed

lemma getitem_bound: "contains c k \<Longrightarrow> map_of c k = Some (getitem c k)"
  by (auto simp: contains_def getitem_def)

lemma slot_names:
  "(if v \<and> contains c x then getitem c x else x) \<in> insert x {w. \<exists>k. map_of c k = Some w}"
  using getitem_bound [of c x] by auto

lemma apply_substitution_names:
  assumes "apply_substitution n c = Inr d"
  shows "node_names d \<subseteq> node_names n \<union> {v. \<exists>k. map_of c k = Some v}"
proof (cases n)
  case (Proposition i v)
  define x where "x = (if v \<and> contains c i then getitem c i else i)"
  have "x \<in> insert i {w. \<exists>k. map_of c k = Some w}"
    unfolding x_def by (rule slot_names)
  moreover from assms have "d = Proposition x (v \<and> \<not> contains c i)"
    unfolding Proposition x_def by (auto split: if_splits)
  ultimately show ?thesis
    by (auto simp: Proposition)
next
  case (SVOClause s sv vb vv ob ov)
  define x1 where "x1 = (if sv \<and> contains c s then getitem c s else s)"
  define x2 where "x2 = (if vv \<and> contains c vb then getitem c vb else vb)"
  define x3 where "x3 = (if ov \<and> contains c ob then getitem c ob else ob)"
  have "x1 \<in> insert s {w. \<exists>k. map_of c k = Some w}"
    "x2 \<in> insert vb {w. \<exists>k. map_of c k = Some w}"
    "x3 \<in> insert ob {w. \<exists>k. map_of c k = Some w}"
    unfolding x1_def x2_def x3_def by (rule slot_names)+
  moreover from assms have "d = SVOClause x1 (sv \<and> \<not> contains c s) x2 (vv \<and> \<not> contains c vb)
      x3 (ov \<and> \<not> contains c ob)"
    unfolding SVOClause x1_def x2_def x3_def by simp
  ultimately show ?thesis
    by (auto simp: SVOClause)
next
  case (ClassificationEdge a av b bv)
  define x1 where "x1 = (if av \<and> contains c a then getitem c a else a)"
  define x2 where "x2 = (if bv \<and> contains c b then getitem c b else b)"
  have "x1 \<in> insert a {w. \<exists>k. map_of c k = Some w}"
    "x2 \<in> insert b {w. \<exists>k. map_of c k = Some w}"
    unfolding x1_def x2_def by (rule slot_names)+
  moreover from assms have "d = ClassificationEdge x1 (av \<and> \<not> contains c a) x2 (bv \<and> \<not> contains c b)"
    unfolding ClassificationEdge x1_def x2_def by simp
  ultimately show ?thesis
    by (auto simp: ClassificationEdge)
qed (use assms in simp_all)

lemma apply_substitution_is_fact:
  assumes "apply_substitution n c = Inr d"
  shows "is_fact d"
proof -
  have "is_fact n"
    using assms apply_substitution_not_fact [of n c] by auto
  then show ?thesis
    using apply_substitution_type [OF assms] by (simp add: is_fact_def)
qed

lemma derived_facts_sound:
  assumes "d \<in> derived_facts premises conclusion F"
  shows "d \<notin> F \<and> is_fact d \<and>
    node_names d \<subseteq> node_names conclusion \<union> (\<Union>p\<in>set premises. node_names p) \<union> (\<Union>f\<in>F. node_names f)"
proof -
  from assms have "d \<notin> F \<and>
        (\<exists>combination c. is_combination premises F combination \<and>
           combine combination = Some c \<and> apply_substitution conclusion c = Inr d)"
    by (simp add: derived_facts_def split: if_splits)
  then obtain combination c where dF: "d \<notin> F"
    and comb: "is_combination premises F combination"
    and c: "combine combination = Some c" and d: "apply_substitution conclusion c = Inr d"
    by blast
  have vals: "v \<in> (\<Union>p\<in>set premises. node_names p) \<union> (\<Union>f\<in>F. node_names f)"
    if "map_of c k = Some v" for k v
  proof -
    from that have "binds combination k v"
      using combine_Some [OF is_combination_distinct [OF comb] c, of k v] by simp
    then obtain m where m: "m \<in> set combination" "map_of (snd m) k = Some v"
      by (auto simp: binds_def)
    then obtain i where i: "i < length combination" "combination ! i = m"
      by (auto simp: in_set_conv_nth)
    with comb have il: "i < length premises" and im: "is_match (premises ! i) F m"
      by (auto simp: is_combination_def)
    from im have "fst m \<in> F" "unify (premises ! i) (fst m) [] = Inr (Some (snd m))"
      by (auto simp: is_match_def)
    moreover from m(2) have "(k, v) \<in> set (snd m)"
      by (rule map_of_SomeD)
    ultimately have "v \<in> node_names (premises ! i) \<union> node_names (fst m)"
      using unify_empty_values by blast
    moreover have "premises ! i \<in> set premises"
      using il by (rule nth_mem)
    ultimately show ?thesis
      using \<open>fst m \<in> F\<close> by blast
  qed
  have sub: "node_names d \<subseteq> node_names conclusion \<union> {v. \<exists>k. map_of c k = Some v}"
    using d by (rule apply_substitution_names)
  have "node_names d \<subseteq> node_names conclusion \<union> (\<Union>p\<in>set premises. node_names p) \<union> (\<Union>f\<in>F. node_names f)"
  proof
    fix x assume "x \<in> node_names d"
    with sub have "x \<in> node_names conclusion \<or> (\<exists>k. map_of c k = Some x)"
      by auto
    then show "x \<in> node_names conclusion \<union> (\<Union>p\<in>set premises. node_names p) \<union> (\<Union>f\<in>F. node_names f)"
    proof
      assume "x \<in> node_names conclusion"
      then show ?thesis by simp
    next
      assume "\<exists>k. map_of c k = Some x"
      then obtain k where "map_of c k = Some x" ..
      from vals [OF this] show ?thesis by simp
    qed
  qed
  moreover have "is_fact d"
    using d by (rule apply_substitution_is_fact)
  ultimately show ?thesis
    using dF by simp
qed

lemma rule_cases:
  assumes "node_type r = RuleT"
  obtains ps c where "r = Rule ps c"
  using assms by (cases r) auto

lemma fact_universe_names: "F \<subseteq> fact_universe N \<Longrightarrow> (\<Union>f\<in>F. node_names f) \<subseteq> N"
  by (auto simp: fact_universe_def)

lemma apply_rule_round:
  assumes r: "node_type r = RuleT" "well_formed r" "node_names r \<subseteq> N"
    and F: "facts ctx \<subseteq> fact_universe N"
  shows "\<exists>D. apply_rule r ctx = Inr D \<and> D \<subseteq> fact_universe N - facts ctx"
proof -
  from r(1) obtain ps c where rc: "r = Rule ps c" by (rule rule_cases)
  have wf: "\<forall>f\<in>facts ctx. is_fact f"
    using F by (auto simp: fact_universe_def)
  have eq: "apply_rule r ctx = Inr (derived_facts ps c (facts ctx))"
    unfolding rc using r(2) wf by (intro apply_rule_derived_facts) (simp_all add: rc)
  have "derived_facts ps c (facts ctx) \<subseteq> fact_universe N - facts ctx"
  proof
    fix d assume "d \<in> derived_facts ps c (facts ctx)"
    from derived_facts_sound [OF this]
    have d: "d \<notin> facts ctx" "is_fact d"
      "node_names d \<subseteq> node_names c \<union> (\<Union>p\<in>set ps. node_names p) \<union> (\<Union>f\<in>facts ctx. node_names f)"
      by simp_all
    have "node_names c \<union> (\<Union>p\<in>set ps. node_names p) \<subseteq> N"
      using r(3) by (simp add: rc Un_commute)
    with d(3) fact_universe_names [OF F] have "node_names d \<subseteq> N"
      by blast
    with d(1,2) show "d \<in> fact_universe N - facts ctx"
      by (simp add: fact_universe_def)
  qed
  with eq show ?thesis by blast
qed

lemma apply_rules_round:
  assumes "\<forall>r\<in>set rs. node_type r = RuleT \<and> well_formed r \<and> node_names r \<subseteq> N"
    and "facts ctx \<subseteq> fact_universe N" and "acc \<subseteq> fact_universe N - facts ctx"
  shows "\<exists>D. apply_rules rs ctx acc = Inr D \<and> D \<subseteq> fact_universe N - facts ctx"
  using assms
proof (induction rs arbitrary: acc)
  case Nil
  then show ?case by simp
next
  case (Cons r rs)
  then obtain D where D: "apply_rule r ctx = Inr D" "D \<subseteq> fact_universe N - facts ctx"
    using apply_rule_round [of r N ctx] by auto
  with Cons.prems have "acc \<union> D \<subseteq> fact_universe N - facts ctx"
    by auto
  with Cons.IH [of "acc \<union> D"] Cons.prems show ?case
    by (simp add: D(1))
qed

lemma edges_of_universe_closed:
  "transitively_closed {e \<in> fact_universe N. node_type e = ClassificationEdgeT}"
  by (simp add: transitively_closed_def fact_universe_def is_fact_def)

lemma closure_round:
  assumes "finite N" and "E \<subseteq> fact_universe N" and "all_edges E"
  shows "\<exists>C. compute_classification_closure E = Some (Inr C) \<and> E \<subseteq> C \<and>
     C \<subseteq> fact_universe N \<and> all_edges C"
proof -
  have "finite E"
    using assms(1,2) finite_fact_universe finite_subset by blast
  from closure_loop_total [OF this assms(3)] obtain C where
    C: "closure_loop E = Some (Inr C)" "E \<subseteq> C" "all_edges C"
      "\<forall>T. E \<subseteq> T \<and> transitively_closed T \<longrightarrow> C \<subseteq> T"
    by blast
  have "E \<subseteq> {e \<in> fact_universe N. node_type e = ClassificationEdgeT}"
    using assms(2,3) by (auto simp: all_edges_def)
  with C(4) edges_of_universe_closed [of N]
  have "C \<subseteq> {e \<in> fact_universe N. node_type e = ClassificationEdgeT}"
    by blast
  with C show ?thesis
    by (auto simp: compute_classification_closure_def)
qed

lemma round_invariant_close_edges:
  assumes inv: "round_invariant N ctx" and C: "classification_edges ctx \<subseteq> C"
    "C \<subseteq> fact_universe N" "all_edges C"
  shows "round_invariant N (close_edges ctx C)" and "facts ctx \<subseteq> facts (close_edges ctx C)"
proof -
  show "facts ctx \<subseteq> facts (close_edges ctx C)"
    using inv C(1) by (auto simp: round_invariant_def close_edges_def)
  show "round_invariant N (close_edges ctx C)"
    using inv C(2,3) by (auto simp: round_invariant_def close_edges_def all_edges_def)
qed

lemma round_invariant_add_new_facts:
  assumes "round_invariant N ctx" and "new \<subseteq> fact_universe N"
  shows "round_invariant N (add_new_facts ctx new)"
  using assms by (auto simp: round_invariant_def add_new_facts_def)

lemma fixpoint_round_invariant:
  assumes inv: "round_invariant N ctx"
  shows "\<exists>ctx1 new. fixpoint_round ctx = Some (Inr (ctx1, new)) \<and> round_invariant N ctx1 \<and>
     facts ctx \<subseteq> facts ctx1 \<and> new \<subseteq> fact_universe N - facts ctx1 \<and>
     apply_rules (rules ctx1) ctx1 {} = Inr new \<and> round_invariant N (add_new_facts ctx1 new)"
proof -
  have fin: "finite N" and E: "classification_edges ctx \<subseteq> fact_universe N"
    "all_edges (classification_edges ctx)"
    using inv by (auto simp: round_invariant_def all_edges_def)
  from closure_round [OF fin E] obtain C where
    C: "compute_classification_closure (classification_edges ctx) = Some (Inr C)"
      "classification_edges ctx \<subseteq> C" "C \<subseteq> fact_universe N" "all_edges C"
    by blast
  let ?ctx1 = "close_edges ctx C"
  have inv1: "round_invariant N ?ctx1" and mono: "facts ctx \<subseteq> facts ?ctx1"
    using round_invariant_close_edges [OF inv C(2,3,4)] by simp_all
  have r1: "rules ?ctx1 = rules ctx"
    by (simp add: close_edges_def)
  from inv1 have "\<forall>r\<in>set (rules ?ctx1). node_type r = RuleT \<and> well_formed r \<and> node_names r \<subseteq> N"
    and "facts ?ctx1 \<subseteq> fact_universe N"
    by (simp_all add: round_invariant_def)
  from apply_rules_round [OF this, of "{}"] obtain new where
    new: "apply_rules (rules ?ctx1) ?ctx1 {} = Inr new" "new \<subseteq> fact_universe N - facts ?ctx1"
    by auto
  have "fixpoint_round ctx = Some (Inr (?ctx1, new))"
    using C(1) new(1) by (simp add: fixpoint_round_def r1)
  moreover have "round_invariant N (add_new_facts ?ctx1 new)"
    using inv1 new(2) by (intro round_invariant_add_new_facts) auto
  ultimately show ?thesis
    using inv1 mono new by blast
qed

lemma fixpoint_total:
  assumes "round_invariant N ctx"
  shows "\<exists>final. fixpoint ctx = Some (Inr final) \<and> round_invariant N final \<and>
     facts ctx \<subseteq> facts final \<and> apply_rules (rules final) final {} = Inr {}"
  using assms
proof (induction "card (fact_universe N - facts ctx)" arbitrary: ctx rule: less_induct)
  case less
  from fixpoint_round_invariant [OF less.prems] obtain ctx1 new where
    r: "fixpoint_round ctx = Some (Inr (ctx1, new))" "round_invariant N ctx1"
      "facts ctx \<subseteq> facts ctx1" "new \<subseteq> fact_universe N - facts ctx1"
      "apply_rules (rules ctx1) ctx1 {} = Inr new" "round_invariant N (add_new_facts ctx1 new)"
    by blast
  show ?case
  proof (cases "new = {}")
    case True
    then have "fixpoint ctx = Some (Inr ctx1)"
      using r(1) by (subst fixpoint.simps) simp
    with r True show ?thesis by auto
  next
    case False
    let ?ctx2 = "add_new_facts ctx1 new"
    have f2: "facts ?ctx2 = facts ctx1 \<union> new"
      by (simp add: add_new_facts_def)
    have fin: "finite (fact_universe N)"
      using less.prems by (simp add: round_invariant_def finite_fact_universe)
    have "fact_universe N - facts ?ctx2 \<subset> fact_universe N - facts ctx"
      using r(3,4) False unfolding f2 by blast
    then have "card (fact_universe N - facts ?ctx2) < card (fact_universe N - facts ctx)"
      using fin by (intro psubset_card_mono) auto
    from less.hyps [OF this r(6)] obtain final where
      final: "fixpoint ?ctx2 = Some (Inr final)" "round_invariant N final"
        "facts ?ctx2 \<subseteq> facts final" "apply_rules (rules final) final {} = Inr {}"
      by blast
    have "fixpoint ctx = Some (Inr final)"
      using r(1) False final(1) by (subst fixpoint.simps) simp
    moreover have "facts ctx \<subseteq> facts final"
      using r(3) final(3) unfolding f2 by blast
    ultimately show ?thesis
      using final by blast
  qed
qed

lemma loop_head_invariant:
  assumes "loop_head ctx0 ctx" and "round_invariant N ctx0"
  shows "round_invariant N ctx"
  using assms
proof (induction rule: loop_head.induct)
  case first_round
  then show ?case by simp
next
  case (next_round ctx ctx1 new_facts)
  then have "round_invariant N ctx" by simp
  from fixpoint_round_invariant [OF this] next_round.hyps(2) show ?case
    by auto
qed

lemma finite_node_names: "finite (node_names n)"
  by (induction n) auto

lemma finite_context_names: "finite (facts ctx) \<Longrightarrow> finite (context_names ctx)"
  by (simp add: context_names_def finite_node_names)

lemma initial_context_invariant:
  assumes "\<forall>n\<in>set ast. well_formed n"
  shows "round_invariant (context_names (initial_context ast)) (initial_context ast)"
proof -
  let ?ctx = "initial_context ast"
  have facts: "facts ?ctx = {n \<in> set ast. node_type n \<noteq> VerbDeclarationT \<and>
      node_type n \<noteq> QueryT \<and> node_type n \<noteq> RuleT}"
    and rules: "rules ?ctx = filter (\<lambda>n. node_type n = RuleT) ast"
    and edges: "classification_edges ?ctx = {f \<in> facts ?ctx. node_type f = ClassificationEdgeT}"
    by (auto simp: initial_context_def Let_def)
  have "finite (facts ?ctx)"
    by (simp add: facts)
  then have "finite (context_names ?ctx)"
    by (rule finite_context_names)
  moreover have "facts ?ctx \<subseteq> fact_universe (context_names ?ctx)"
  proof
    fix f assume f: "f \<in> facts ?ctx"
    then have "is_fact f"
      unfolding facts by (cases f) (auto simp: is_fact_def)
    moreover have "node_names f \<subseteq> context_names ?ctx"
      using f by (auto simp: context_names_def)
    ultimately show "f \<in> fact_universe (context_names ?ctx)"
      by (simp add: fact_universe_def)
  qed
  moreover have "\<forall>r\<in>set (rules ?ctx). node_type r = RuleT \<and> well_formed r \<and>
      node_names r \<subseteq> context_names ?ctx"
    using assms by (auto simp: rules context_names_def)
  ultimately show ?thesis
    using edges by (simp add: round_invariant_def)
qed

lemma print_results_facts:
  assumes "\<forall>q\<in>set queries. is_fact (query_expression q)" and "\<forall>f\<in>facts ctx. is_fact f"
  shows "\<exists>out. print_results queries ctx printed = (printed @ out, None) \<and>
     length out = length queries \<and> set out \<subseteq> {derivable_symbol, not_derivable_symbol}"
  using assms(1)
proof (induction queries arbitrary: printed)
  case Nil
  then show ?case by simp
next
  case (Cons q queries)
  then have "is_fact (query_expression q)" by simp
  from evaluate_query_facts [OF this assms(2)] obtain r where
    r: "evaluate_query q ctx = Inr r" "r \<in> {derivable_symbol, not_derivable_symbol}"
    by (cases "\<exists>f\<in>facts ctx. \<exists>s. unify (query_expression q) f [] = Inr (Some s)") auto
  from Cons.IH [of "printed @ [r]"] Cons.prems obtain out where
    out: "print_results queries ctx (printed @ [r]) = ((printed @ [r]) @ out, None)"
      "length out = length queries" "set out \<subseteq> {derivable_symbol, not_derivable_symbol}"
    by auto
  have "print_results (q # queries) ctx printed = (printed @ (r # out), None)"
    using r(1) out(1) by simp
  with out(2,3) r(2) show ?case
    by (intro exI [of _ "r # out"]) simp
qed

lemma query_expression_well_formed:
  "node_type q = QueryT \<Longrightarrow> well_formed q \<Longrightarrow> is_fact (query_expression q)"
  by (cases q) auto

lemma closure_loop_empty: "compute_classification_closure {} = Some (Inr {})"
  by (simp add: compute_classification_closure_def closure_loop_edges all_edges_def new_edges_def)

lemma filter_non_edges:
  "{f. f = a \<and> P f} = (if P a then {a} else {})"
  "{f. (f = a \<or> Q f) \<and> P f} = (if P a then insert a {f. Q f \<and> P f} else {f. Q f \<and> P f})"
  by auto

lemma example_round1:
  "fixpoint_round
     \<lparr>facts = {Proposition [65] False}, classification_edges = {},
      rules = [Rule [Proposition [65] False] (Proposition [66] False)], verb_lexicon = {}\<rparr> =
   Some (Inr (\<lparr>facts = {Proposition [65] False}, classification_edges = {},
      rules = [Rule [Proposition [65] False] (Proposition [66] False)], verb_lexicon = {}\<rparr>,
     {Proposition [66] False}))"
  by (simp add: fixpoint_round_def closure_loop_empty close_edges_def filter_non_edges
      unify_eval matches_of_def combine_def)

lemma example_round2:
  "fixpoint_round
     \<lparr>facts = {Proposition [65] False, Proposition [66] False}, classification_edges = {},
      rules = [Rule [Proposition [65] False] (Proposition [66] False)], verb_lexicon = {}\<rparr> =
   Some (Inr (\<lparr>facts = {Proposition [65] False, Proposition [66] False}, classification_edges = {},
      rules = [Rule [Proposition [65] False] (Proposition [66] False)], verb_lexicon = {}\<rparr>,
     {}))"
  by (simp add: fixpoint_round_def closure_loop_empty close_edges_def filter_non_edges
      unify_eval matches_of_def combine_def)

lemma example_fixpoint:
  "fixpoint
     \<lparr>facts = {Proposition [65] False}, classification_edges = {},
      rules = [Rule [Proposition [65] False] (Proposition [66] False)], verb_lexicon = {}\<rparr> =
   Some (Inr \<lparr>facts = {Proposition [65] False, Proposition [66] False}, classification_edges = {},
      rules = [Rule [Proposition [65] False] (Proposition [66] False)], verb_lexicon = {}\<rparr>)"
proof -
  let ?R = "Rule [Proposition [65] False] (Proposition [66] False)"
  let ?ctx1 = "\<lparr>facts = {Proposition [65] False}, classification_edges = {},
      rules = [?R], verb_lexicon = {}\<rparr>"
  let ?ctx2 = "\<lparr>facts = {Proposition [65] False, Proposition [66] False},
      classification_edges = {}, rules = [?R], verb_lexicon = {}\<rparr>"
  have "fixpoint ?ctx1 = fixpoint (add_new_facts ?ctx1 {Proposition [66] False})"
    by (subst fixpoint.simps) (simp add: example_round1)
  also have "add_new_facts ?ctx1 {Proposition [66] False} = ?ctx2"
    by (auto simp: add_new_facts_def)
  also have "fixpoint ?ctx2 = Some (Inr ?ctx2)"
    by (subst fixpoint.simps) (simp add: example_round2)
  finally show ?thesis .
qed

text \<open>
  C2. On the context built from a parsed program the fixpoint driver terminates: it
  returns a final context without raising. The facts of the initial context are facts
  of the final one; every round that the loop starts returns, and only adds facts, to
  the set it started with and then by the new facts; the names in the facts of every
  round and of the final context are names of the facts and rules of the program, of
  which there are finitely many; and the last round derived no new fact.
\<close>

theorem fixpoint_terminates:
  assumes "\<forall>n\<in>set ast. well_formed n"
  shows "\<exists>final. fixpoint (initial_context ast) = Some (Inr final) \<and>
     facts (initial_context ast) \<subseteq> facts final \<and>
     finite (context_names (initial_context ast)) \<and>
     (\<forall>f\<in>facts final. node_names f \<subseteq> context_names (initial_context ast)) \<and>
     apply_rules (rules final) final {} = Inr {} \<and>
     (\<forall>ctx. loop_head (initial_context ast) ctx \<longrightarrow>
        (\<exists>ctx1 new_facts. fixpoint_round ctx = Some (Inr (ctx1, new_facts)) \<and>
           facts ctx \<subseteq> facts ctx1 \<and> facts ctx1 \<subseteq> facts (add_new_facts ctx1 new_facts) \<and>
           (\<forall>f\<in>facts (add_new_facts ctx1 new_facts).
              node_names f \<subseteq> context_names (initial_context ast))))"
proof -
  let ?ctx0 = "initial_context ast"
  let ?N = "context_names ?ctx0"
  have inv: "round_invariant ?N ?ctx0"
    using assms by (rule initial_context_invariant)
  have names: "\<forall>f\<in>facts ctx. node_names f \<subseteq> ?N" if "round_invariant ?N ctx" for ctx
    using that by (auto simp: round_invariant_def fact_universe_def)
  from fixpoint_total [OF inv] obtain final where
    final: "fixpoint ?ctx0 = Some (Inr final)" "round_invariant ?N final"
      "facts ?ctx0 \<subseteq> facts final" "apply_rules (rules final) final {} = Inr {}"
    by blast
  have rounds: "\<exists>ctx1 new_facts. fixpoint_round ctx = Some (Inr (ctx1, new_facts)) \<and>
           facts ctx \<subseteq> facts ctx1 \<and> facts ctx1 \<subseteq> facts (add_new_facts ctx1 new_facts) \<and>
           (\<forall>f\<in>facts (add_new_facts ctx1 new_facts). node_names f \<subseteq> ?N)"
    if "loop_head ?ctx0 ctx" for ctx
  proof -
    have "round_invariant ?N ctx"
      using that inv by (rule loop_head_invariant)
    from fixpoint_round_invariant [OF this] obtain ctx1 new where
      r: "fixpoint_round ctx = Some (Inr (ctx1, new))" "facts ctx \<subseteq> facts ctx1"
        "round_invariant ?N (add_new_facts ctx1 new)"
      by blast
    have "facts ctx1 \<subseteq> facts (add_new_facts ctx1 new)"
      by (simp add: add_new_facts_def)
    with r names [OF r(3)] show ?thesis
      by blast
  qed
  have "finite ?N"
    using inv by (simp add: round_invariant_def)
  with final names [OF final(2)] rounds show ?thesis
    by blast
qed

theorem fixpoint_terminates_witness:
  "fixpoint (initial_context
     [Rule [Proposition [65] False] (Proposition [66] False), Proposition [65] False,
      Query (Proposition [66] False)]) =
   Some (Inr \<lparr>facts = {Proposition [65] False, Proposition [66] False}, classification_edges = {},
      rules = [Rule [Proposition [65] False] (Proposition [66] False)], verb_lexicon = {}\<rparr>)"
  using fixpoint_terminates
    [of "[Rule [Proposition [65] False] (Proposition [66] False), Proposition [65] False,
      Query (Proposition [66] False)]"]
  by (simp add: initial_context_def is_fact_def example_fixpoint filter_non_edges)

text \<open>
  C8. The evaluation of a parsed program never fails: the fixpoint driver returns a
  final context, and \<open>eval_program\<close> returns without an exception, having printed one
  of the two answers for every query. No \<open>TypeError\<close> of \<open>apply_substitution\<close> or
  \<open>unify\<close> and no other exception is reached, for each would end the run in the
  \<open>RuntimeError\<close> that this result excludes.
\<close>

theorem eval_program_never_fails:
  assumes "\<forall>n\<in>set ast. well_formed n"
  shows "\<exists>final printed. fixpoint (initial_context ast) = Some (Inr final) \<and>
     eval_program ast = Some (printed, None) \<and>
     length printed = length (filter (\<lambda>n. node_type n = QueryT) ast) \<and>
     set printed \<subseteq> {derivable_symbol, not_derivable_symbol}"
proof -
  let ?ctx0 = "initial_context ast"
  have "round_invariant (context_names ?ctx0) ?ctx0"
    using assms by (rule initial_context_invariant)
  from fixpoint_total [OF this] obtain final where
    final: "fixpoint ?ctx0 = Some (Inr final)" "round_invariant (context_names ?ctx0) final"
    by blast
  have ff: "\<forall>f\<in>facts final. is_fact f"
    using final(2) by (auto simp: round_invariant_def fact_universe_def)
  have "\<forall>q\<in>set (filter (\<lambda>n. node_type n = QueryT) ast). is_fact (query_expression q)"
    using assms by (auto intro: query_expression_well_formed)
  from print_results_facts [OF this ff, of "[]"] obtain out where
    out: "print_results (filter (\<lambda>n. node_type n = QueryT) ast) final [] = (out, None)"
      "length out = length (filter (\<lambda>n. node_type n = QueryT) ast)"
      "set out \<subseteq> {derivable_symbol, not_derivable_symbol}"
    by auto
  have "eval_program ast = Some (out, None)"
    using final(1) out(1) by (simp add: eval_program_def)
  with final(1) out(2,3) show ?thesis
    by blast
qed

theorem eval_program_never_fails_witness:
  "eval_program
     [Rule [Proposition [65] False] (Proposition [66] False), Proposition [65] False,
      Query (Proposition [66] False)] = Some ([derivable_symbol], None)"
  using eval_program_never_fails
    [of "[Rule [Proposition [65] False] (Proposition [66] False), Proposition [65] False,
      Query (Proposition [66] False)]"]
  by (simp add: eval_program_def initial_context_def is_fact_def example_fixpoint filter_non_edges
      evaluate_query_def unify_eval)

section \<open>The exceptions of unification\<close>

text \<open>
  Whatever its arguments, \<open>unify\<close> raises nothing but the \<open>TypeError\<close> of an unsupported
  node: the rule engine and the query evaluator, which loop over a set of facts, can
  therefore name the exception of a failing round without knowing which round fails
  first.
\<close>

lemma apply_substitution_raises: "apply_substitution n s = Inl e \<Longrightarrow> e = TypeError"
  by (cases n) (auto split: if_splits)

lemma and_then_Inl:
  "and_then r k = Inl e \<Longrightarrow> r = Inl e \<or> (\<exists>t. k t = Inl e)"
  by (auto simp: and_then_def split: sum.splits option.splits)

lemma unify_raises:
  assumes "unify p f s = Inl e"
  shows "e = TypeError"
proof (cases "apply_substitution p s")
  case (Inl e1)
  with assms show ?thesis
    by (auto simp: unify_def dest: apply_substitution_raises)
next
  case p': (Inr p')
  show ?thesis
  proof (cases "apply_substitution f s")
    case (Inl e2)
    with assms p' show ?thesis
      by (auto simp: unify_def dest: apply_substitution_raises)
  next
    case f': (Inr f')
    show ?thesis
    proof (cases "node_type p' = node_type f'")
      case False
      with assms p' f' show ?thesis
        by (simp add: unify_def)
    next
      case True
      have fp: "is_fact p'"
        using p' by (rule apply_substitution_is_fact)
      from fp show ?thesis
      proof (cases p' rule: is_fact_cases)
        case (Proposition i v)
        with True obtain j w where "f' = Proposition j w"
          by (cases f') auto
        with assms p' f' Proposition show ?thesis
          by (simp add: unify_def unify_proposition.simps)
      next
        case (SVOClause a av b bv c cv)
        with True obtain a' av' b' bv' c' cv' where "f' = SVOClause a' av' b' bv' c' cv'"
          by (cases f') auto
        with assms p' f' SVOClause show ?thesis
          by (auto simp: unify_def unify_proposition.simps dest!: and_then_Inl)
      next
        case (ClassificationEdge a av b bv)
        with True obtain a' av' b' bv' where "f' = ClassificationEdge a' av' b' bv'"
          by (cases f') auto
        with assms p' f' ClassificationEdge show ?thesis
          by (auto simp: unify_def unify_proposition.simps dest!: and_then_Inl)
      qed
    qed
  qed
qed

section \<open>The parser\<close>

lemma str_find_ge: "- 1 \<le> str_find text sub"
  by (induction "text") (auto simp: Let_def)

lemma str_find_absent: "str_find text sub = - 1 \<longleftrightarrow> \<not> sublist sub text"
proof (induction "text")
  case Nil
  then show ?case by simp
next
  case (Cons c cs)
  have "- 1 \<le> str_find cs sub" by (rule str_find_ge)
  then have "str_find cs sub + 1 \<noteq> - 1" by simp
  with Cons show ?case
    by (auto simp: Let_def sublist_Cons_right)
qed

lemma str_contains_sublist: "str_contains text sub \<longleftrightarrow> sublist sub text"
  by (simp add: str_contains_def str_find_absent)

lemma str_find_first:
  "(\<forall>i<length before. \<not> prefix sub (drop i (before @ sub @ rest))) \<Longrightarrow>
     str_find (before @ sub @ rest) sub = int (length before)"
proof (induction before)
  case Nil
  have "prefix sub (sub @ rest)" by simp
  then show ?case
    by (cases "sub @ rest") simp_all
next
  case (Cons b bs)
  have "\<forall>i<length bs. \<not> prefix sub (drop i (bs @ sub @ rest))"
  proof (intro allI impI)
    fix i assume "i < length bs"
    then have "\<not> prefix sub (drop (Suc i) ((b # bs) @ sub @ rest))"
      using Cons.prems by (metis Suc_less_eq length_Cons)
    then show "\<not> prefix sub (drop i (bs @ sub @ rest))" by simp
  qed
  from Cons.IH [OF this] have r: "str_find (bs @ sub @ rest) sub = int (length bs)" .
  from Cons.prems have "\<not> prefix sub ((b # bs) @ sub @ rest)"
    by (metis drop0 length_greater_0_conv list.distinct(1))
  with r show ?case
    by (simp add: Let_def)
qed

lemma find_verb_found:
  "find_verb text verbs (Some a) =
     (if \<exists>vb\<in>set verbs. sublist vb text then Inl (ParseError MultipleVerbs) else Inr (Some a))"
  by (induction verbs) (auto simp: Let_def str_find_absent)

lemma find_verb_none:
  "\<forall>vb\<in>set verbs. \<not> sublist vb text \<Longrightarrow> find_verb text verbs None = Inr None"
  by (induction verbs) (auto simp: Let_def str_find_absent)

lemma find_verb_step_absent:
  "\<not> sublist v text \<Longrightarrow> find_verb text (v # verbs) found = find_verb text verbs found"
  by (simp add: Let_def str_find_absent)

lemma find_verb_step_present:
  "sublist v text \<Longrightarrow> find_verb text (v # verbs) None = find_verb text verbs (Some (v, str_find text v))"
  by (simp add: Let_def str_find_absent)

lemma find_verb_one:
  assumes "vb \<in> set verbs" and "\<forall>w\<in>set verbs. sublist w text \<longrightarrow> w = vb"
    and "sublist vb text" and "distinct verbs"
  shows "find_verb text verbs None = Inr (Some (vb, str_find text vb))"
  using assms
proof (induction verbs)
  case Nil
  then show ?case by simp
next
  case (Cons v verbs)
  show ?case
  proof (cases "v = vb")
    case True
    have "vb \<notin> set verbs"
      using Cons.prems(4) True by simp
    then have "\<not> (\<exists>w\<in>set verbs. sublist w text)"
      using Cons.prems(2) by force
    then have "find_verb text verbs (Some (vb, str_find text vb)) = Inr (Some (vb, str_find text vb))"
      by (simp only: find_verb_found if_False)
    then show ?thesis
      unfolding True using Cons.prems(3) by (simp add: find_verb_step_present del: find_verb.simps)
  next
    case False
    have nv: "\<not> sublist v text"
      using Cons.prems(2) False by force
    have mem: "vb \<in> set verbs"
      using Cons.prems(1) False by simp
    have "\<forall>w\<in>set verbs. sublist w text \<longrightarrow> w = vb"
      using Cons.prems(2) by simp
    moreover have "distinct verbs"
      using Cons.prems(4) by simp
    ultimately have "find_verb text verbs None = Inr (Some (vb, str_find text vb))"
      using mem Cons.prems(3) by (intro Cons.IH)
    then show ?thesis
      using nv by (simp add: find_verb_step_absent del: find_verb.simps)
  qed
qed

lemma find_verb_two:
  assumes "v \<in> set verbs" and "w \<in> set verbs" and "v \<noteq> w"
    and "sublist v text" and "sublist w text"
  shows "find_verb text verbs None = Inl (ParseError MultipleVerbs)"
  using assms
proof (induction verbs)
  case Nil
  then show ?case by simp
next
  case (Cons x verbs)
  show ?case
  proof (cases "sublist x text")
    case True
    have "v \<in> set verbs \<or> w \<in> set verbs"
      using Cons.prems(1,2,3) by auto
    then have "\<exists>vb\<in>set verbs. sublist vb text"
      using Cons.prems(4,5) by blast
    then have "find_verb text verbs (Some (x, str_find text x)) = Inl (ParseError MultipleVerbs)"
      by (simp only: find_verb_found if_True)
    then show ?thesis
      using True by (simp add: find_verb_step_present del: find_verb.simps)
  next
    case False
    then have "x \<noteq> v" "x \<noteq> w"
      using Cons.prems(4,5) by auto
    then have "v \<in> set verbs" "w \<in> set verbs"
      using Cons.prems(1,2) by auto
    then have "find_verb text verbs None = Inl (ParseError MultipleVerbs)"
      using Cons.prems(3,4,5) by (intro Cons.IH)
    then show ?thesis
      using False by (simp add: find_verb_step_absent del: find_verb.simps)
  qed
qed

lemma split_single_token_undeclared:
  "\<forall>vb\<in>set verbs. \<not> sublist vb text \<Longrightarrow>
     split_single_token text verbs = Inl (ParseError UndeclaredVerb)"
  by (simp add: split_single_token_def find_verb_none)

lemma split_single_token_multiple:
  "v \<in> set verbs \<Longrightarrow> w \<in> set verbs \<Longrightarrow> v \<noteq> w \<Longrightarrow> sublist v text \<Longrightarrow> sublist w text \<Longrightarrow>
     split_single_token text verbs = Inl (ParseError MultipleVerbs)"
  by (simp add: split_single_token_def find_verb_two)

lemma split_single_token_one:
  assumes "vb \<in> set verbs" and "\<forall>w\<in>set verbs. sublist w text \<longrightarrow> w = vb"
    and "distinct verbs" and tx: "text = before @ vb @ rest"
    and first: "\<forall>i<length before. \<not> prefix vb (drop i text)"
  shows "split_single_token text verbs =
     (if before = [] then Inl (ParseError MissingSubject)
      else if rest = [] then Inl (ParseError MissingObject)
      else Inr (SVOClause before (prefix variable_marker before) vb False
             rest (prefix variable_marker rest)))"
proof -
  have sub: "sublist vb text"
    by (simp add: tx)
  have pos: "str_find text vb = int (length before)"
    using first unfolding tx by (rule str_find_first)
  have "find_verb text verbs None = Inr (Some (vb, int (length before)))"
    using find_verb_one [OF assms(1,2) sub assms(3)] pos by simp
  then show ?thesis
    by (simp add: split_single_token_def tx)
qed

lemma advance_lexicon: "advance p = Inr (t, p') \<Longrightarrow> lexicon p' = lexicon p"
  by (auto simp: advance_def split: sum.splits if_splits)

lemma collect_identifiers_lexicon_aux:
  assumes "collect_identifiers p0 identifiers0 = Some y0"
  shows "\<forall>identifiers' p'. y0 = Inr (identifiers', p') \<longrightarrow> lexicon p' = lexicon p0"
proof (rule collect_identifiers.raw_induct
    [where P = "\<lambda>p identifiers y. \<forall>identifiers' p'. y = Inr (identifiers', p') \<longrightarrow> lexicon p' = lexicon p",
     OF _ assms])
  fix collect_identifiers p identifiers y
  assume 1: "\<And>p identifiers y. collect_identifiers p identifiers = Some y \<Longrightarrow>
      \<forall>identifiers' p'. y = Inr (identifiers', p') \<longrightarrow> lexicon p' = lexicon p"
    "(case peek p 0 of
        Inl e \<Rightarrow> Some (Inl e)
      | Inr token \<Rightarrow>
          if token_type token = NEWLINE \<or> token_type token = EOF \<or> token_type token = KEYWORD
          then Some (Inr (identifiers, p))
          else
            (case advance p of
               Inl e \<Rightarrow> Some (Inl e)
             | Inr (t, p') \<Rightarrow>
                 if token_type token = IDENTIFIER \<or> token_type token = VARIABLE
                 then collect_identifiers p' (identifiers @ [t])
                 else collect_identifiers p' identifiers)) = Some y"
  show "\<forall>identifiers' p'. y = Inr (identifiers', p') \<longrightarrow> lexicon p' = lexicon p"
  proof (cases "peek p 0")
    case (Inl e)
    with 1(2) show ?thesis by auto
  next
    case (Inr token)
    show ?thesis
    proof (cases "token_type token = NEWLINE \<or> token_type token = EOF \<or> token_type token = KEYWORD")
      case True
      with 1(2) Inr show ?thesis by auto
    next
      case False
      show ?thesis
      proof (cases "advance p")
        case (Inl e)
        with 1(2) Inr False show ?thesis by auto
      next
        case adv: (Inr tp)
        obtain t p1 where tp: "tp = (t, p1)" by (cases tp)
        have lex: "lexicon p1 = lexicon p"
          using adv tp advance_lexicon by blast
        from 1(2) Inr False adv tp
        have "collect_identifiers p1 (identifiers @ [t]) = Some y \<or>
              collect_identifiers p1 identifiers = Some y"
          by (auto split: if_splits)
        then have "\<forall>identifiers' p'. y = Inr (identifiers', p') \<longrightarrow> lexicon p' = lexicon p1"
          using 1(1) by blast
        then show ?thesis
          by (simp add: lex)
      qed
    qed
  qed
qed

lemma collect_identifiers_lexicon:
  "collect_identifiers p identifiers = Some (Inr (identifiers', p')) \<Longrightarrow> lexicon p' = lexicon p"
  using collect_identifiers_lexicon_aux by blast

lemma advance_token:
  "peek p 0 = Inr t \<Longrightarrow> token_type t \<noteq> EOF \<Longrightarrow>
     advance p = Inr (t, p\<lparr>position := position p + 1\<rparr>)"
  by (simp add: advance_def)

lemma collect_identifiers_boundary:
  assumes "peek p 0 = Inr t"
    and "token_type t = NEWLINE \<or> token_type t = EOF \<or> token_type t = KEYWORD"
  shows "collect_identifiers p identifiers = Some (Inr (identifiers, p))"
  using assms by (subst collect_identifiers.simps) simp

lemma skip_blank_stop:
  assumes "peek p 0 = Inr t" and "token_type t \<noteq> INDENT" and "token_type t \<noteq> NEWLINE"
  shows "skip_blank p = Some (Inr p)"
  using assms by (subst skip_blank.simps) simp

lemma particles_distinct:
  "kw_hu \<noteq> kw_zhe" "kw_ze \<noteq> kw_zhe" "kw_qie \<noteq> kw_zhe"
  by (simp_all add: kw_hu_def kw_ze_def kw_qie_def kw_zhe_def)

lemma bare_identifier_expression:
  assumes first: "peek p 0 = Inr first_token"
    and ftype: "token_type first_token = IDENTIFIER \<or> token_type first_token = VARIABLE"
    and noverb: "\<forall>vb\<in>set (lexicon p). \<not> sublist vb (token_value first_token)"
    and nxt: "peek (p\<lparr>position := position p + 1\<rparr>) 0 = Inr next_token"
    and boundary: "token_type next_token = NEWLINE \<or> token_type next_token = EOF \<or>
      (token_type next_token = KEYWORD \<and>
       (token_value next_token = kw_hu \<or> token_value next_token = kw_ze \<or>
        token_value next_token = kw_qie))"
  shows "parse_expression p =
     Some (Inr (Proposition (token_value first_token) (token_type first_token = VARIABLE),
       p\<lparr>position := position p + 1\<rparr>))"
proof -
  have adv: "advance p = Inr (first_token, p\<lparr>position := position p + 1\<rparr>)"
    using first ftype by (intro advance_token) auto
  have nk: "\<not> (token_type first_token = KEYWORD \<and> token_value first_token = kw_yue)"
    using ftype by auto
  have ni: "\<not> (token_type first_token \<noteq> IDENTIFIER \<and> token_type first_token \<noteq> VARIABLE)"
    using ftype by auto
  have nz: "\<not> (token_type next_token = KEYWORD \<and> token_value next_token = kw_zhe)"
    using boundary particles_distinct by auto
  have nv: "\<not> (\<exists>vb\<in>set (lexicon p). str_contains (token_value first_token) vb)"
    using noverb by (simp add: str_contains_sublist)
  have nxt': "peek (p\<lparr>position := Suc (position p)\<rparr>) 0 = Inr next_token"
    using nxt by simp
  show ?thesis
    unfolding parse_expression_def
    using boundary by (auto simp: first adv nxt' nk ni nz nv)
qed

lemma bare_identifier_statement:
  assumes first: "peek p 0 = Inr first_token"
    and ftype: "token_type first_token = IDENTIFIER \<or> token_type first_token = VARIABLE"
    and noverb: "\<forall>vb\<in>set (lexicon p). \<not> sublist vb (token_value first_token)"
    and nxt: "peek (p\<lparr>position := position p + 1\<rparr>) 0 = Inr next_token"
    and boundary: "token_type next_token = NEWLINE \<or> token_type next_token = EOF \<or>
      (token_type next_token = KEYWORD \<and>
       (token_value next_token = kw_hu \<or> token_value next_token = kw_ze \<or>
        token_value next_token = kw_qie))"
  shows "parse_statement p = Some (Inl (ParseError UndeclaredVerb))"
proof -
  let ?p1 = "p\<lparr>position := position p + 1\<rparr>"
  have adv: "advance p = Inr (first_token, ?p1)"
    using first ftype by (intro advance_token) auto
  have skip: "skip_blank p = Some (Inr p)"
    using first ftype by (intro skip_blank_stop) auto
  have nz: "\<not> (token_type next_token = KEYWORD \<and> token_value next_token = kw_zhe)"
    using boundary particles_distinct by auto
  have "collect_identifiers ?p1 [first_token] = Some (Inr ([first_token], ?p1))"
    using nxt boundary by (intro collect_identifiers_boundary) auto
  moreover have "split_single_token (token_value first_token) (lexicon ?p1) =
      Inl (ParseError UndeclaredVerb)"
    using noverb by (intro split_single_token_undeclared) simp
  ultimately have svo: "parse_svo_clause ?p1 first_token = Some (Inl (ParseError UndeclaredVerb))"
    by (simp add: parse_svo_clause_def)
  have t1: "token_type first_token \<noteq> EOF" "token_type first_token \<noteq> KEYWORD"
    using ftype by auto
  have nxt': "peek (p\<lparr>position := Suc (position p)\<rparr>) 0 = Inr next_token"
    using nxt by simp
  have svo': "parse_svo_clause (p\<lparr>position := Suc (position p)\<rparr>) first_token =
      Some (Inl (ParseError UndeclaredVerb))"
    using svo by simp
  show ?thesis
    unfolding parse_statement_def
    using ftype by (simp add: skip first t1 adv nxt' nz svo' with_statement_def)
qed

text \<open>
  C4. Let the identifier tokens of a statement collapse to the single token
  \<open>first_token\<close>, and let the lexicon hold each verb once. Then the segmentation fails
  with the undeclared-verb error when no verb of the lexicon occurs in the text of the
  token, and with the multiple-verbs error when two different verbs of the lexicon
  occur in it. When exactly one verb occurs, the text being \<open>before @ vb @ rest\<close> at
  the first occurrence, it fails with the missing-subject error when \<open>before\<close> is
  empty, else with the missing-object error when \<open>rest\<close> is empty, and else returns
  the SVO clause of subject \<open>before\<close>, concrete verb \<open>vb\<close> and object \<open>rest\<close>,
  subject and object flagged as variables exactly when they start with the marker.
\<close>

theorem parse_svo_clause_single_token:
  assumes single: "collect_identifiers p [first_token] = Some (Inr ([first_token], p'))"
    and dist: "distinct (lexicon p)"
  shows
    "((\<forall>vb\<in>set (lexicon p). \<not> sublist vb (token_value first_token)) \<longrightarrow>
        parse_svo_clause p first_token = Some (Inl (ParseError UndeclaredVerb))) \<and>
     (\<forall>v w. v \<in> set (lexicon p) \<and> w \<in> set (lexicon p) \<and> v \<noteq> w \<and>
        sublist v (token_value first_token) \<and> sublist w (token_value first_token) \<longrightarrow>
        parse_svo_clause p first_token = Some (Inl (ParseError MultipleVerbs))) \<and>
     (\<forall>vb before rest. vb \<in> set (lexicon p) \<and>
        (\<forall>w\<in>set (lexicon p). sublist w (token_value first_token) \<longrightarrow> w = vb) \<and>
        token_value first_token = before @ vb @ rest \<and>
        (\<forall>i<length before. \<not> prefix vb (drop i (token_value first_token))) \<longrightarrow>
        parse_svo_clause p first_token =
          Some (if before = [] then Inl (ParseError MissingSubject)
                else if rest = [] then Inl (ParseError MissingObject)
                else Inr (SVOClause before (prefix variable_marker before) vb False
                       rest (prefix variable_marker rest), p')))"
proof -
  have lex: "lexicon p' = lexicon p"
    using single by (rule collect_identifiers_lexicon)
  have eq: "parse_svo_clause p first_token =
     (case split_single_token (token_value first_token) (lexicon p) of
        Inl e \<Rightarrow> Some (Inl e)
      | Inr clause \<Rightarrow> Some (Inr (clause, p')))"
    by (simp add: parse_svo_clause_def single lex)
  show ?thesis
  proof (intro conjI allI impI)
    assume "\<forall>vb\<in>set (lexicon p). \<not> sublist vb (token_value first_token)"
    then show "parse_svo_clause p first_token = Some (Inl (ParseError UndeclaredVerb))"
      by (simp add: eq split_single_token_undeclared)
  next
    fix v w
    assume "v \<in> set (lexicon p) \<and> w \<in> set (lexicon p) \<and> v \<noteq> w \<and>
        sublist v (token_value first_token) \<and> sublist w (token_value first_token)"
    then have "split_single_token (token_value first_token) (lexicon p) =
        Inl (ParseError MultipleVerbs)"
      by (elim conjE) (rule split_single_token_multiple)
    then show "parse_svo_clause p first_token = Some (Inl (ParseError MultipleVerbs))"
      by (simp add: eq)
  next
    fix vb before rest
    assume "vb \<in> set (lexicon p) \<and>
        (\<forall>w\<in>set (lexicon p). sublist w (token_value first_token) \<longrightarrow> w = vb) \<and>
        token_value first_token = before @ vb @ rest \<and>
        (\<forall>i<length before. \<not> prefix vb (drop i (token_value first_token)))"
    then have a: "vb \<in> set (lexicon p)"
      and b: "\<forall>w\<in>set (lexicon p). sublist w (token_value first_token) \<longrightarrow> w = vb"
      and c: "token_value first_token = before @ vb @ rest"
      and d: "\<forall>i<length before. \<not> prefix vb (drop i (token_value first_token))"
      by (rule conjunct1, rule conjunct2 [THEN conjunct1],
          rule conjunct2 [THEN conjunct2, THEN conjunct1],
          rule conjunct2 [THEN conjunct2, THEN conjunct2])
    have "split_single_token (token_value first_token) (lexicon p) =
     (if before = [] then Inl (ParseError MissingSubject)
      else if rest = [] then Inl (ParseError MissingObject)
      else Inr (SVOClause before (prefix variable_marker before) vb False
             rest (prefix variable_marker rest)))"
      using a b dist c d by (rule split_single_token_one)
    then show "parse_svo_clause p first_token =
          Some (if before = [] then Inl (ParseError MissingSubject)
                else if rest = [] then Inl (ParseError MissingObject)
                else Inr (SVOClause before (prefix variable_marker before) vb False
                       rest (prefix variable_marker rest), p'))"
      by (simp add: eq)
  qed
qed

theorem parse_svo_clause_single_token_witness:
  "parse_svo_clause
     \<lparr>tokens = [\<lparr>token_type = IDENTIFIER, token_value = [20154, 24859, 29399], line = 2, column = 1\<rparr>,
                \<lparr>token_type = EOF, token_value = [], line = 2, column = 4\<rparr>],
      position = 1, lexicon = [[24859]]\<rparr>
     \<lparr>token_type = IDENTIFIER, token_value = [20154, 24859, 29399], line = 2, column = 1\<rparr> =
   Some (Inr (SVOClause [20154] False [24859] False [29399] False,
     \<lparr>tokens = [\<lparr>token_type = IDENTIFIER, token_value = [20154, 24859, 29399], line = 2, column = 1\<rparr>,
                \<lparr>token_type = EOF, token_value = [], line = 2, column = 4\<rparr>],
      position = 1, lexicon = [[24859]]\<rparr>))"
proof -
  let ?first = "\<lparr>token_type = IDENTIFIER, token_value = [20154, 24859, 29399], line = 2, column = 1\<rparr>"
  let ?p = "\<lparr>tokens = [?first, \<lparr>token_type = EOF, token_value = [], line = 2, column = 4\<rparr>],
      position = 1, lexicon = [[24859]]\<rparr>"
  have single: "collect_identifiers ?p [?first] = Some (Inr ([?first], ?p))"
    by (rule collect_identifiers_boundary [where t = "\<lparr>token_type = EOF, token_value = [], line = 2, column = 4\<rparr>"])
       (simp_all add: peek_def)
  have dist: "distinct (lexicon ?p)"
    by simp
  have "\<forall>i<length [20154::nat]. \<not> prefix [24859] (drop i (token_value ?first))"
    by simp
  moreover have "\<forall>w\<in>set (lexicon ?p). sublist w (token_value ?first) \<longrightarrow> w = [24859]"
    by simp
  ultimately show ?thesis
    using parse_svo_clause_single_token [OF single dist, THEN conjunct2, THEN conjunct2,
      rule_format, of "[24859]" "[20154]" "[29399]"]
    by (simp add: variable_marker_def)
qed

text \<open>
  C5 (as amended). Let the next token be an identifier or a variable in whose text no
  verb of the lexicon occurs, followed directly by a line break, the end of the input
  or one of the three particles that end an expression. Where an expression is parsed
  (the premises and the conclusion of a rule, the body of a query), the result is the
  plain proposition of that token, with the variable flag of the token. As a statement
  of its own the same tokens go to the segmentation of an SVO clause and fail with the
  undeclared-verb error: a top-level proposition needs its leading particle.
\<close>

theorem bare_identifier_is_proposition_in_expressions:
  assumes "peek p 0 = Inr first_token"
    and "token_type first_token = IDENTIFIER \<or> token_type first_token = VARIABLE"
    and "\<forall>vb\<in>set (lexicon p). \<not> sublist vb (token_value first_token)"
    and "peek (p\<lparr>position := position p + 1\<rparr>) 0 = Inr next_token"
    and "token_type next_token = NEWLINE \<or> token_type next_token = EOF \<or>
      (token_type next_token = KEYWORD \<and>
       (token_value next_token = kw_hu \<or> token_value next_token = kw_ze \<or>
        token_value next_token = kw_qie))"
  shows "parse_expression p =
       Some (Inr (Proposition (token_value first_token) (token_type first_token = VARIABLE),
         p\<lparr>position := position p + 1\<rparr>)) \<and>
     parse_statement p = Some (Inl (ParseError UndeclaredVerb))"
  using bare_identifier_expression [OF assms] bare_identifier_statement [OF assms]
  by simp

theorem bare_identifier_is_proposition_in_expressions_witness:
  "parse_expression
     \<lparr>tokens = [\<lparr>token_type = KEYWORD, token_value = kw_wen, line = 1, column = 1\<rparr>,
                \<lparr>token_type = IDENTIFIER, token_value = [66], line = 1, column = 2\<rparr>,
                \<lparr>token_type = KEYWORD, token_value = kw_hu, line = 1, column = 3\<rparr>,
                \<lparr>token_type = EOF, token_value = [], line = 1, column = 4\<rparr>],
      position = 1, lexicon = [[24859]]\<rparr> =
   Some (Inr (Proposition [66] False,
     \<lparr>tokens = [\<lparr>token_type = KEYWORD, token_value = kw_wen, line = 1, column = 1\<rparr>,
                \<lparr>token_type = IDENTIFIER, token_value = [66], line = 1, column = 2\<rparr>,
                \<lparr>token_type = KEYWORD, token_value = kw_hu, line = 1, column = 3\<rparr>,
                \<lparr>token_type = EOF, token_value = [], line = 1, column = 4\<rparr>],
      position = 2, lexicon = [[24859]]\<rparr>))"
  using bare_identifier_is_proposition_in_expressions
    [of "\<lparr>tokens = [\<lparr>token_type = KEYWORD, token_value = kw_wen, line = 1, column = 1\<rparr>,
                \<lparr>token_type = IDENTIFIER, token_value = [66], line = 1, column = 2\<rparr>,
                \<lparr>token_type = KEYWORD, token_value = kw_hu, line = 1, column = 3\<rparr>,
                \<lparr>token_type = EOF, token_value = [], line = 1, column = 4\<rparr>],
      position = 1, lexicon = [[24859]]\<rparr>"
      "\<lparr>token_type = IDENTIFIER, token_value = [66], line = 1, column = 2\<rparr>"
      "\<lparr>token_type = KEYWORD, token_value = kw_hu, line = 1, column = 3\<rparr>"]
  by (simp add: peek_def sublist_Cons_right numeral_2_eq_2)

text \<open>
  The claim as stated fails on the statement that is the single identifier \<open>A\<close>:
  \<open>parse_statement\<close> raises instead of returning a proposition.
\<close>

theorem bare_identifier_statement_fails:
  "parse_statement
     \<lparr>tokens = [\<lparr>token_type = IDENTIFIER, token_value = [65], line = 1, column = 1\<rparr>,
                \<lparr>token_type = EOF, token_value = [], line = 1, column = 2\<rparr>],
      position = 0, lexicon = []\<rparr> =
   Some (Inl (ParseError UndeclaredVerb))"
  by (rule bare_identifier_statement
      [where first_token = "\<lparr>token_type = IDENTIFIER, token_value = [65], line = 1, column = 1\<rparr>"
         and next_token = "\<lparr>token_type = EOF, token_value = [], line = 1, column = 2\<rparr>"])
     (simp_all add: peek_def)

end
